theory Spec2Isabelle
  imports Main "HOL-Library.Word"
begin

unbundle bit_operations_syntax

section \<open>fast-archiver: the archiving pipeline of \<open>falib/archiver.go\<close>\<close>

text \<open>
  The archiver walks directory trees with a pool of scanner goroutines, reads files with a
  pool of reader goroutines, and funnels typed blocks through one queue into a single
  writer that serialises them and interleaves cumulative CRC-64 checksums.

  The embedding follows the source function by function.  Mutable fields of the
  \<open>Archiver\<close> struct are a record that every function takes and returns; the operating
  system and the library calls whose answers the code branches on (\<open>os.Open\<close>,
  \<open>os.Lstat\<close>, \<open>File.Stat\<close>, \<open>File.Readdirnames\<close>, \<open>Reader.Read\<close>, \<open>filepath.Join\<close>,
  \<open>filepath.Match\<close>, the output sink) are a record of functions \<open>env\<close>; loops without a
  bound are \<open>partial_function (option)\<close>, so that a loop that never ends has the value
  \<open>None\<close>.
\<close>

subsection \<open>Bytes and big-endian integers (\<open>encoding/binary\<close>)\<close>

type_synonym byte = "8 word"

text \<open>\<open>[]byte(s)\<close> of a Go string: its bytes.  A HOL \<open>char\<close> is one byte.\<close>

definition bytesOf :: "string \<Rightarrow> byte list" where
  "bytesOf s = map (\<lambda>c. word_of_nat (of_char c)) s"

text \<open>\<open>binary.BigEndian.PutUint16/32/64\<close>: shifts and truncating conversions to \<open>byte\<close>.\<close>

definition putUint16 :: "16 word \<Rightarrow> byte list" where
  "putUint16 v = [ucast (drop_bit 8 v), ucast v]"

definition putUint32 :: "32 word \<Rightarrow> byte list" where
  "putUint32 v = [ucast (drop_bit 24 v), ucast (drop_bit 16 v), ucast (drop_bit 8 v), ucast v]"

definition putUint64 :: "64 word \<Rightarrow> byte list" where
  "putUint64 v = [ucast (drop_bit 56 v), ucast (drop_bit 48 v), ucast (drop_bit 40 v),
                  ucast (drop_bit 32 v), ucast (drop_bit 24 v), ucast (drop_bit 16 v),
                  ucast (drop_bit 8 v), ucast v]"

subsection \<open>CRC-64 (\<open>hash/crc64\<close>, ECMA table)\<close>

text \<open>
  \<open>crc64.MakeTable(crc64.ECMA)\<close>: entry \<open>i\<close> is \<open>i\<close> pushed through eight rounds of the
  reflected polynomial \<open>0xC96C5795D7870F42\<close>.
\<close>

definition ECMA :: "64 word" where
  "ECMA = 0xC96C5795D7870F42"

definition tableRound :: "64 word \<Rightarrow> 64 word" where
  "tableRound crc = (if crc AND 1 = 1 then drop_bit 1 crc XOR ECMA else drop_bit 1 crc)"

definition makeTable :: "byte \<Rightarrow> 64 word" where
  "makeTable i = (tableRound ^^ 8) (ucast i)"

text \<open>
  \<open>crc64.update\<close>: complement, one table step per byte, complement.  (The library's
  slicing-by-8 path for long inputs computes the same value.)
\<close>

definition crcStep :: "64 word \<Rightarrow> byte \<Rightarrow> 64 word" where
  "crcStep crc v = makeTable (ucast crc XOR v) XOR drop_bit 8 crc"

definition update :: "64 word \<Rightarrow> byte list \<Rightarrow> 64 word" where
  "update crc p = NOT (foldl crcStep (NOT crc) p)"

text \<open>
  The hash \<open>crc64.New(table)\<close> starts in state 0, \<open>Write\<close> replaces the state by \<open>update\<close>
  of it, and \<open>Sum64\<close> returns the state: after the bytes \<open>d\<close>, the sum is \<open>crc64 d\<close>.
\<close>

definition crc64 :: "byte list \<Rightarrow> 64 word" where
  "crc64 d = update 0 d"

subsection \<open>Blocks\<close>

text \<open>
  The declarations of \<open>Block\<close>, the block type constants, \<open>BlockSize\<close>,
  \<open>fastArchiverHeader\<close> and \<open>Verbose\<close> are in a file of the package that is not part of
  the sources at hand.  The fields of \<open>Block\<close> and their types are read off the composite
  literals and the conversions in \<open>archiver.go\<close>
  (\<open>Block{filePath, uint16(bytesRead), buffer, blockTypeData, 0, 0, 0}\<close>, with
  \<open>uid, gid int\<close> and \<open>mode os.FileMode\<close> from \<open>getModeOwnership\<close>).
\<close>

datatype blockType =
  blockTypeData | blockTypeStartOfFile | blockTypeEndOfFile | blockTypeDirectory
  | blockTypeChecksum

record Block =
  filePath :: string
  numBytes :: "16 word"
  buffer :: "byte list"
  blockType :: blockType
  uid :: int
  gid :: int
  mode :: "32 word"

text \<open>
  The package-level declarations the code uses and the sources do not show are taken as a
  parameter: the magic header bytes, the chunk size, the verbosity flag and the byte that
  \<open>byte(b.blockType)\<close> yields for each block type.
\<close>

record pkg =
  fastArchiverHeader :: "byte list"
  BlockSize :: nat
  Verbose :: bool
  typeByte :: "blockType \<Rightarrow> byte"

subsection \<open>Errors, panics and the output writer\<close>

datatype error = ErrAbsoluteDirectoryPath | ErrSink

datatype panic = UnexpectedBlockType | SliceBoundsOutOfRange

text \<open>A call either returns or panics.\<close>

datatype 'a res = Ret 'a | Panic panic

datatype readErr = EOF | ReadFailed

text \<open>
  A directory or file handle, as far as the code looks at it: the answer of \<open>Stat\<close>
  (\<open>None\<close>: an error; otherwise the mode and the \<open>Stat_t\<close> pointer, \<open>None\<close> when nil, else
  uid and gid), and the answers of the successive calls of \<open>Readdirnames(256)\<close> and of
  \<open>Read\<close> on the buffered reader (call number \<open>k\<close>, from 0): the names or bytes returned
  and the error.
\<close>

record File =
  Stat :: "(32 word \<times> (32 word \<times> 32 word) option) option"
  Readdirnames :: "nat \<Rightarrow> string list \<times> readErr option"
  Read :: "nat \<Rightarrow> byte list \<times> readErr option"

text \<open>
  The world outside the archiver.  \<open>Open\<close> and \<open>Lstat\<close> answer \<open>None\<close> on error; \<open>Lstat\<close>
  gives the \<open>FileMode\<close>.  \<open>Match pattern name\<close> gives \<open>(matched, err)\<close>.  The sink behind
  \<open>a.output\<close> accepts or refuses each \<open>Write\<close>, given the bytes it holds already.
\<close>

record env =
  Open :: "string \<Rightarrow> File option"
  Lstat :: "string \<Rightarrow> 32 word option"
  Join :: "string \<Rightarrow> string \<Rightarrow> string"
  Match :: "string \<Rightarrow> string \<Rightarrow> bool \<times> bool"
  accepts :: "byte list \<Rightarrow> byte list \<Rightarrow> bool"

text \<open>
  \<open>io.MultiWriter(a.output, hash)\<close>: the bytes the sink has taken and the state of the
  running CRC.  A \<open>Write\<close> goes to the sink first; if the sink refuses, the hash is not
  touched and the error is returned.
\<close>

record multiWriter =
  written :: "byte list"
  crc :: "64 word"

definition Write :: "env \<Rightarrow> byte list \<Rightarrow> multiWriter \<Rightarrow> error option \<times> multiWriter" where
  "Write e p w =
     (if accepts e (written w) p
      then (None, w\<lparr>written := written w @ p, crc := update (crc w) p\<rparr>)
      else (Some ErrSink, w))"

text \<open>\<open>if err == nil { err = f(...) }\<close>: the next write happens only after a success.\<close>

definition ifNil :: "error option \<times> multiWriter \<Rightarrow> (multiWriter \<Rightarrow> error option \<times> multiWriter)
    \<Rightarrow> error option \<times> multiWriter" where
  "ifNil r f = (case r of (None, w) \<Rightarrow> f w | (Some err, w) \<Rightarrow> (Some err, w))"

subsection \<open>\<open>writeBlock\<close> and \<open>writeChecksumBlock\<close>\<close>

text \<open>
  \<open>uint16(len(filePath))\<close> and \<open>uint32(b.uid)\<close> truncate; \<open>b.buffer[:b.numBytes]\<close> panics
  when \<open>numBytes\<close> exceeds the buffer.
\<close>

definition writeBlock :: "pkg \<Rightarrow> env \<Rightarrow> Block \<Rightarrow> multiWriter \<Rightarrow> (error option \<times> multiWriter) res" where
  "writeBlock p e b output =
     (let r1 = Write e (putUint16 (word_of_nat (length (bytesOf (filePath b))))) output;
          r2 = ifNil r1 (Write e (bytesOf (filePath b)));
          r3 = ifNil r2 (Write e [typeByte p (blockType b)])
      in case r3 of
           (Some err, w) \<Rightarrow> Ret (Some err, w)
         | (None, w) \<Rightarrow>
            (case blockType b of
               blockTypeDirectory \<Rightarrow>
                 Ret (ifNil (ifNil (Write e (putUint32 (word_of_int (uid b))) w)
                                   (Write e (putUint32 (word_of_int (gid b)))))
                            (Write e (putUint32 (mode b))))
             | blockTypeStartOfFile \<Rightarrow>
                 Ret (ifNil (ifNil (Write e (putUint32 (word_of_int (uid b))) w)
                                   (Write e (putUint32 (word_of_int (gid b)))))
                            (Write e (putUint32 (mode b))))
             | blockTypeEndOfFile \<Rightarrow> Ret (None, w)
             | blockTypeData \<Rightarrow>
                 (case Write e (putUint16 (numBytes b)) w of
                    (Some err, w') \<Rightarrow> Ret (Some err, w')
                  | (None, w') \<Rightarrow>
                      if unat (numBytes b) \<le> length (buffer b)
                      then Ret (Write e (take (unat (numBytes b)) (buffer b)) w')
                      else Panic SliceBoundsOutOfRange)
             | blockTypeChecksum \<Rightarrow> Panic UnexpectedBlockType))"

text \<open>\<open>hash.Sum64()\<close> is read after the two-byte zero length and the type byte are written.\<close>

definition writeChecksumBlock :: "pkg \<Rightarrow> env \<Rightarrow> multiWriter \<Rightarrow> error option \<times> multiWriter" where
  "writeChecksumBlock p e output =
     (let r1 = Write e (putUint16 0) output;
          r2 = ifNil r1 (Write e [typeByte p blockTypeChecksum])
      in ifNil r2 (\<lambda>w. Write e (putUint64 (crc w)) w))"

subsection \<open>\<open>archiveWriter\<close>\<close>

text \<open>
  The loop \<open>for block := range a.blockQueue\<close> over the blocks that arrive until the queue
  is closed, with the running \<open>blockCount\<close>; after the last block, the final checksum.
\<close>

fun writeBlocks :: "pkg \<Rightarrow> env \<Rightarrow> Block list \<Rightarrow> nat \<Rightarrow> multiWriter \<Rightarrow> (error option \<times> multiWriter) res" where
  "writeBlocks p e [] blockCount w = Ret (writeChecksumBlock p e w)"
| "writeBlocks p e (block # rest) blockCount w =
     (case writeBlock p e block w of
        Panic x \<Rightarrow> Panic x
      | Ret (err, w1) \<Rightarrow>
          (let blockCount' = blockCount + 1;
               (err', w2) = (if err = None \<and> blockCount' mod 1000 = 0
                             then writeChecksumBlock p e w1 else (err, w1))
           in if err' \<noteq> None then Ret (err', w2) else writeBlocks p e rest blockCount' w2))"

definition archiveWriter :: "pkg \<Rightarrow> env \<Rightarrow> byte list \<Rightarrow> Block list \<Rightarrow> (error option \<times> multiWriter) res" where
  "archiveWriter p e out blocks =
     (case Write e (fastArchiverHeader p) \<lparr>written = out, crc = 0\<rparr> of
        (Some err, w) \<Rightarrow> Ret (Some err, w)
      | (None, w) \<Rightarrow> writeBlocks p e blocks 0 w)"

subsection \<open>The archiver\<close>

datatype logEntry = LogVerbose string | LogWarning string

text \<open>
  The struct \<open>Archiver\<close>.  A channel is the list of the values sent and not yet received
  (a nil channel and an empty one are both \<open>[]\<close>; the capacities only decide when a
  sender waits, which is scheduling and not modelled).  \<open>workInProgress\<close> is the counter
  of the wait group.  \<open>output'\<close> (the field \<open>output\<close>) is the bytes the sink has taken, \<open>Logger\<close> the messages
  logged so far.  \<open>handles\<close> is not a field of the struct: it lists the paths of the files
  and directories that are open and not yet closed.
\<close>

record Archiver =
  directoryScanQueue :: "string list"
  fileReadQueue :: "string list"
  blockQueue :: "Block list"
  workInProgress :: int
  excludePatterns :: "string list"
  output' :: "byte list"
  DirReaderCount :: int
  FileReaderCount :: int
  DirScanQueueSize :: int
  FileReadQueueSize :: int
  BlockQueueSize :: int
  ExcludePatterns :: "string list"
  Logger :: "logEntry list"
  error :: "error option"
  handles :: "string list"

definition NewArchiver :: Archiver where
  "NewArchiver =
     \<lparr>directoryScanQueue = [], fileReadQueue = [], blockQueue = [], workInProgress = 0,
      excludePatterns = [], output' = [], DirReaderCount = 16, FileReaderCount = 16,
      DirScanQueueSize = 128, FileReadQueueSize = 128, BlockQueueSize = 128,
      ExcludePatterns = [], Logger = [], error = None, handles = []\<rparr>"

definition AddDir :: "string \<Rightarrow> Archiver \<Rightarrow> Archiver" where
  "AddDir directoryPath a =
     a\<lparr>workInProgress := workInProgress a + 1,
       directoryScanQueue := directoryScanQueue a @ [directoryPath]\<rparr>"

definition Warning :: "string \<Rightarrow> Archiver \<Rightarrow> Archiver" where
  "Warning msg a = a\<lparr>Logger := Logger a @ [LogWarning msg]\<rparr>"

definition VerboseLog :: "string \<Rightarrow> Archiver \<Rightarrow> Archiver" where
  "VerboseLog msg a = a\<lparr>Logger := Logger a @ [LogVerbose msg]\<rparr>"

definition Done :: "Archiver \<Rightarrow> Archiver" where
  "Done a = a\<lparr>workInProgress := workInProgress a - 1\<rparr>"

definition send :: "Block \<Rightarrow> Archiver \<Rightarrow> Archiver" where
  "send b a = a\<lparr>blockQueue := blockQueue a @ [b]\<rparr>"

definition Close :: "string \<Rightarrow> Archiver \<Rightarrow> Archiver" where
  "Close path a = a\<lparr>handles := remove1 path (handles a)\<rparr>"

subsection \<open>\<open>getModeOwnership\<close>\<close>

definition getModeOwnership :: "File \<Rightarrow> Archiver \<Rightarrow> (int \<times> int \<times> 32 word) \<times> Archiver" where
  "getModeOwnership file a =
     (case Stat file of
        None \<Rightarrow> ((0, 0, 0), Warning ''file stat error; uid/gid/mode will be incorrect:'' a)
      | Some (m, stat_t) \<Rightarrow>
          (case stat_t of
             Some (u, g) \<Rightarrow> ((uint u, uint g, m), a)
           | None \<Rightarrow> ((0, 0, m), Warning ''unable to find file uid/gid'' a)))"

subsection \<open>\<open>fileReader\<close>\<close>

text \<open>
  The read loop, from call number \<open>k\<close> of \<open>bufferedFile.Read(buffer)\<close>.  Every pass
  allocates a fresh zeroed buffer of \<open>BlockSize\<close> bytes; the bytes read fill its front.
  \<open>uint16(bytesRead)\<close> truncates.
\<close>

partial_function (option) readLoop :: "pkg \<Rightarrow> File \<Rightarrow> string \<Rightarrow> nat \<Rightarrow> Archiver \<Rightarrow> Archiver option" where
  "readLoop p file path k a =
     (case Read file k of (bytes, err) \<Rightarrow>
        if err = Some EOF then Some a
        else if err \<noteq> None
        then Some (Warning ''file read error; file contents will be incomplete:'' a)
        else readLoop p file path (k + 1)
               (send \<lparr>filePath = path, numBytes = word_of_nat (length bytes),
                      buffer = bytes @ replicate (BlockSize p - length bytes) 0,
                      blockType = blockTypeData, uid = 0, gid = 0, mode = 0\<rparr> a))"

text \<open>One pass of \<open>for filePath := range a.fileReadQueue\<close>.\<close>

definition fileReader :: "pkg \<Rightarrow> env \<Rightarrow> string \<Rightarrow> Archiver \<Rightarrow> Archiver option" where
  "fileReader p e path a0 =
     (let a = (if Verbose p then Warning path a0 else a0) in
      case Open e path of
        Some file \<Rightarrow>
          (case getModeOwnership file (a\<lparr>handles := path # handles a\<rparr>) of
             ((u, g, m), a1) \<Rightarrow>
               (case readLoop p file path 0
                       (send \<lparr>filePath = path, numBytes = 0, buffer = [],
                              blockType = blockTypeStartOfFile, uid = u, gid = g, mode = m\<rparr> a1) of
                  None \<Rightarrow> None
                | Some a2 \<Rightarrow>
                    Some (Done (Close path
                      (send \<lparr>filePath = path, numBytes = 0, buffer = [],
                             blockType = blockTypeEndOfFile, uid = 0, gid = 0, mode = 0\<rparr> a2)))))
      | None \<Rightarrow> Some (Done (Warning ''file open error:'' a)))"

subsection \<open>\<open>directoryScanner\<close>\<close>

text \<open>
  \<open>readdirnames\<close>: the generator goroutine, from call number \<open>k\<close> of
  \<open>dir.Readdirnames(256)\<close>, with the names sent so far.  It ends at \<open>io.EOF\<close> only; any
  other error is logged and the loop goes on.
\<close>

partial_function (option) readdirnames :: "File \<Rightarrow> nat \<Rightarrow> string list \<Rightarrow> Archiver \<Rightarrow> (string list \<times> Archiver) option" where
  "readdirnames dir k sent a =
     (case Readdirnames dir k of (names, err) \<Rightarrow>
        if err = Some EOF then Some (sent, a)
        else readdirnames dir (k + 1) (sent @ names)
               (if err \<noteq> None then Warning ''error reading directory:'' a else a))"

text \<open>The loop over \<open>a.excludePatterns\<close>, with its \<open>break\<close> at the first match.\<close>

fun excludeFile :: "env \<Rightarrow> string list \<Rightarrow> string \<Rightarrow> bool" where
  "excludeFile e [] path = False"
| "excludeFile e (excludePattern # rest) path =
     (case Match e excludePattern path of (match, err) \<Rightarrow>
        if \<not> err \<and> match then True else excludeFile e rest path)"

text \<open>
  \<open>os.ModeDir\<close> and \<open>os.ModeSymlink\<close> are bits 31 and 27 of a \<open>FileMode\<close>.
\<close>

definition ModeDir :: "32 word" where
  "ModeDir = push_bit 31 1"

definition ModeSymlink :: "32 word" where
  "ModeSymlink = push_bit 27 1"

text \<open>The body of the loop over the names of one directory.\<close>

definition scanEntry :: "env \<Rightarrow> string \<Rightarrow> Archiver \<Rightarrow> string \<Rightarrow> Archiver" where
  "scanEntry e directoryPath a fileName =
     (let path = Join e directoryPath fileName in
      if excludeFile e (excludePatterns a) path
      then VerboseLog ''skipping excluded file'' a
      else case Lstat e path of
             None \<Rightarrow> Warning ''unable to lstat file'' a
           | Some fileMode \<Rightarrow>
               if fileMode AND ModeSymlink \<noteq> 0 then Warning ''skipping symbolic link'' a
               else let a1 = a\<lparr>workInProgress := workInProgress a + 1\<rparr> in
                    if fileMode AND ModeDir \<noteq> 0
                    then a1\<lparr>directoryScanQueue := directoryScanQueue a1 @ [path]\<rparr>
                    else a1\<lparr>fileReadQueue := fileReadQueue a1 @ [path]\<rparr>)"

text \<open>One pass of \<open>for directoryPath := range a.directoryScanQueue\<close>.\<close>

definition directoryScanner :: "pkg \<Rightarrow> env \<Rightarrow> string \<Rightarrow> Archiver \<Rightarrow> Archiver option" where
  "directoryScanner p e directoryPath a0 =
     (if take 1 directoryPath = ''/''
      then Some (Done (a0\<lparr>error := Some ErrAbsoluteDirectoryPath\<rparr>))
      else let a = (if Verbose p then VerboseLog directoryPath a0 else a0) in
        case Open e directoryPath of
          None \<Rightarrow> Some (Done (Warning ''directory read error:'' a))
        | Some directory \<Rightarrow>
            (case getModeOwnership directory (a\<lparr>handles := directoryPath # handles a\<rparr>) of
               ((u, g, m), a1) \<Rightarrow>
                 (case readdirnames directory 0 []
                         (send \<lparr>filePath = directoryPath, numBytes = 0, buffer = [],
                                blockType = blockTypeDirectory, uid = u, gid = g, mode = m\<rparr> a1) of
                    None \<Rightarrow> None
                  | Some (names, a2) \<Rightarrow>
                      Some (Done (Close directoryPath
                        (foldl (scanEntry e directoryPath) a2 names))))))"

subsection \<open>\<open>Run\<close>\<close>

text \<open>
  The worker pools, run to completion under one schedule: pending directories first, then
  pending files.  When both queues are empty the terminator closes the queues if the
  wait group is at zero; if it is not, nothing can ever bring it to zero and the run
  hangs (\<open>None\<close>).  The result keeps in \<open>blockQueue\<close> every block sent, in the order sent.
\<close>

partial_function (option) workers :: "pkg \<Rightarrow> env \<Rightarrow> Archiver \<Rightarrow> Archiver option" where
  "workers p e a =
     (case directoryScanQueue a of
        directoryPath # ds \<Rightarrow>
          Option.bind (directoryScanner p e directoryPath (a\<lparr>directoryScanQueue := ds\<rparr>))
            (workers p e)
      | [] \<Rightarrow>
          (case fileReadQueue a of
             path # fs \<Rightarrow>
               Option.bind (fileReader p e path (a\<lparr>fileReadQueue := fs\<rparr>)) (workers p e)
           | [] \<Rightarrow> if workInProgress a = 0 then Some a else None))"

text \<open>
  \<open>Run\<close>: fresh file and block queues, the error slot cleared, the workers, the writer
  over the blocks in the order they were sent, and the error to return.  \<open>None\<close>: the run
  does not return; \<open>Some (Panic x)\<close>: it crashes.  (The model lets the workers finish
  before the writer starts.  The writer of the program runs beside them, so with a sink
  that fails the program can return while workers are still busy.)
\<close>

definition Run :: "pkg \<Rightarrow> env \<Rightarrow> Archiver \<Rightarrow> (error option \<times> Archiver) res option" where
  "Run p e a0 =
     (case workers p e (a0\<lparr>fileReadQueue := [], blockQueue := [], error := None\<rparr>) of
        None \<Rightarrow> None
      | Some a \<Rightarrow>
          (case archiveWriter p e (output' a) (blockQueue a) of
             Panic x \<Rightarrow> Some (Panic x)
           | Ret (err, w) \<Rightarrow>
               Some (Ret (if err \<noteq> None then err else error a,
                          a\<lparr>blockQueue := [], output' := written w\<rparr>))))"

declare readLoop.simps [code] readdirnames.simps [code] workers.simps [code]

section \<open>The wire format of the specification\<close>

text \<open>
  The specification gives every multi-byte integer of the stream as big-endian.
  \<open>bigEndian k n\<close> is the number \<open>n\<close> in \<open>k\<close> bytes, most significant first, defined on
  numbers and not on the shifts of the code.
\<close>

fun bigEndian :: "nat \<Rightarrow> nat \<Rightarrow> byte list" where
  "bigEndian 0 n = []"
| "bigEndian (Suc k) n = bigEndian k (n div 256) @ [word_of_nat (n mod 256)]"

text \<open>The bytes \<open>writeBlock\<close> puts before and after the type byte, named for the proofs.\<close>

definition header :: "pkg \<Rightarrow> Block \<Rightarrow> byte list" where
  "header p b = putUint16 (word_of_nat (length (filePath b))) @ bytesOf (filePath b)
                @ [typeByte p (blockType b)]"

definition payload :: "Block \<Rightarrow> byte list" where
  "payload b =
     (case blockType b of
        blockTypeDirectory \<Rightarrow>
          putUint32 (word_of_int (uid b)) @ putUint32 (word_of_int (gid b)) @ putUint32 (mode b)
      | blockTypeStartOfFile \<Rightarrow>
          putUint32 (word_of_int (uid b)) @ putUint32 (word_of_int (gid b)) @ putUint32 (mode b)
      | blockTypeEndOfFile \<Rightarrow> []
      | blockTypeData \<Rightarrow> putUint16 (numBytes b) @ take (unat (numBytes b)) (buffer b)
      | blockTypeChecksum \<Rightarrow> [])"

text \<open>
  The blocks of the specification's data model: a tagged variant with five cases.
\<close>

datatype wireBlock =
    Directory string "32 word" "32 word" "32 word"
  | StartOfFile string "32 word" "32 word" "32 word"
  | Data string "byte list"
  | EndOfFile string
  | Checksum "64 word"

text \<open>
  The wire format of a block:
  \<open>BLOCK := path_len:uint16 path:bytes[path_len] type:uint8 payload\<close>, the payload being
  \<open>uid:uint32 gid:uint32 mode:uint32\<close> for a directory or the start of a file, empty for the
  end of a file, \<open>len:uint16 data:bytes[len]\<close> for data, and \<open>value:uint64\<close> (after a zero
  \<open>path_len\<close>) for a checksum.
\<close>

fun wire :: "pkg \<Rightarrow> wireBlock \<Rightarrow> byte list" where
  "wire p (Directory path u g m) =
     bigEndian 2 (length path) @ bytesOf path @ [typeByte p blockTypeDirectory]
     @ bigEndian 4 (unat u) @ bigEndian 4 (unat g) @ bigEndian 4 (unat m)"
| "wire p (StartOfFile path u g m) =
     bigEndian 2 (length path) @ bytesOf path @ [typeByte p blockTypeStartOfFile]
     @ bigEndian 4 (unat u) @ bigEndian 4 (unat g) @ bigEndian 4 (unat m)"
| "wire p (Data path d) =
     bigEndian 2 (length path) @ bytesOf path @ [typeByte p blockTypeData]
     @ bigEndian 2 (length d) @ d"
| "wire p (EndOfFile path) =
     bigEndian 2 (length path) @ bytesOf path @ [typeByte p blockTypeEndOfFile]"
| "wire p (Checksum v) =
     bigEndian 2 0 @ [typeByte p blockTypeChecksum] @ bigEndian 8 (unat v)"

text \<open>\<open>STREAM := HEADER BLOCK*\<close>.\<close>

definition stream :: "pkg \<Rightarrow> wireBlock list \<Rightarrow> byte list" where
  "stream p items = fastArchiverHeader p @ concat (map (wire p) items)"

text \<open>
  The block of the data model that a \<open>Block\<close> of the queue stands for: its path, and for
  its type the fields the type carries (uid and gid as \<open>uint32\<close>, the first \<open>numBytes\<close>
  bytes of the buffer).
\<close>

definition logical :: "Block \<Rightarrow> wireBlock" where
  "logical b =
     (case blockType b of
        blockTypeDirectory \<Rightarrow>
          Directory (filePath b) (word_of_int (uid b)) (word_of_int (gid b)) (mode b)
      | blockTypeStartOfFile \<Rightarrow>
          StartOfFile (filePath b) (word_of_int (uid b)) (word_of_int (gid b)) (mode b)
      | blockTypeData \<Rightarrow> Data (filePath b) (take (unat (numBytes b)) (buffer b))
      | blockTypeEndOfFile \<Rightarrow> EndOfFile (filePath b)
      | blockTypeChecksum \<Rightarrow> Checksum 0)"

fun isChecksum :: "wireBlock \<Rightarrow> bool" where
  "isChecksum (Checksum v) = True"
| "isChecksum _ = False"

text \<open>
  The number of blocks between consecutive checksum blocks: for every checksum block of a
  list, in order, how many blocks stand between it and the checksum block before it (or
  the start of the list, after \<open>k\<close> blocks already counted).
\<close>

fun gaps :: "nat \<Rightarrow> wireBlock list \<Rightarrow> nat list" where
  "gaps k [] = []"
| "gaps k (it # rest) = (if isChecksum it then k # gaps 0 rest else gaps (Suc k) rest)"

text \<open>
  Modelled from the spec: the decoder is not part of the code base.  It reads the wire
  format back, block by block: the number in big-endian bytes, the path, and a block
  according to its type byte.  \<open>decodeBlocks\<close> takes as fuel a bound on the number of blocks
  (no block is empty, so the length of the input is one).
\<close>

definition fromBigEndian :: "byte list \<Rightarrow> nat" where
  "fromBigEndian bs = foldl (\<lambda>n b. 256 * n + unat b) 0 bs"

definition stringOf :: "byte list \<Rightarrow> string" where
  "stringOf bs = map (\<lambda>b. char_of (unat b)) bs"

definition decodeBlock :: "pkg \<Rightarrow> byte list \<Rightarrow> (wireBlock \<times> byte list) option" where
  "decodeBlock p bs =
     (if length bs < 3 then None
      else let n = fromBigEndian (take 2 bs) in
        if length bs < 3 + n then None
        else let path = stringOf (take n (drop 2 bs));
                 t = bs ! (2 + n);
                 rest = drop (3 + n) bs
             in if t = typeByte p blockTypeDirectory \<or> t = typeByte p blockTypeStartOfFile
                then (if length rest < 12 then None
                      else let u = word_of_nat (fromBigEndian (take 4 rest));
                               g = word_of_nat (fromBigEndian (take 4 (drop 4 rest)));
                               m = word_of_nat (fromBigEndian (take 4 (drop 8 rest)))
                           in Some (if t = typeByte p blockTypeDirectory
                                    then Directory path u g m else StartOfFile path u g m,
                                    drop 12 rest))
                else if t = typeByte p blockTypeEndOfFile then Some (EndOfFile path, rest)
                else if t = typeByte p blockTypeData
                then (if length rest < 2 then None
                      else let k = fromBigEndian (take 2 rest) in
                        if length rest < 2 + k then None
                        else Some (Data path (take k (drop 2 rest)), drop (2 + k) rest))
                else if t = typeByte p blockTypeChecksum \<and> n = 0
                then (if length rest < 8 then None
                      else Some (Checksum (word_of_nat (fromBigEndian (take 8 rest))), drop 8 rest))
                else None)"

fun decodeBlocks :: "pkg \<Rightarrow> nat \<Rightarrow> byte list \<Rightarrow> wireBlock list option" where
  "decodeBlocks p 0 bs = (if bs = [] then Some [] else None)"
| "decodeBlocks p (Suc fuel) bs =
     (if bs = [] then Some []
      else case decodeBlock p bs of
             None \<Rightarrow> None
           | Some (it, rest) \<Rightarrow> map_option ((#) it) (decodeBlocks p fuel rest))"

definition decodeStream :: "pkg \<Rightarrow> byte list \<Rightarrow> wireBlock list option" where
  "decodeStream p bs =
     (if take (length (fastArchiverHeader p)) bs = fastArchiverHeader p
      then decodeBlocks p (length bs) (drop (length (fastArchiverHeader p)) bs)
      else None)"










section \<open>Notions for the proofs\<close>

definition dataBlock :: "pkg \<Rightarrow> string \<Rightarrow> byte list \<Rightarrow> Block" where
  "dataBlock p path bytes =
     \<lparr>filePath = path, numBytes = word_of_nat (length bytes),
      buffer = bytes @ replicate (BlockSize p - length bytes) 0,
      blockType = blockTypeData, uid = 0, gid = 0, mode = 0\<rparr>"

definition metaBlock :: "blockType \<Rightarrow> string \<Rightarrow> int \<Rightarrow> int \<Rightarrow> 32 word \<Rightarrow> Block" where
  "metaBlock t path u g m =
     \<lparr>filePath = path, numBytes = 0, buffer = [], blockType = t, uid = u, gid = g, mode = m\<rparr>"

text \<open>The data blocks of the first n reads from call k on.\<close>
definition chunks :: "pkg \<Rightarrow> File \<Rightarrow> string \<Rightarrow> nat \<Rightarrow> nat \<Rightarrow> Block list" where
  "chunks p file path k n = map (\<lambda>i. dataBlock p path (fst (Read file i))) [k..<k + n]"

definition sends :: "Block list \<Rightarrow> Archiver \<Rightarrow> Archiver" where
  "sends bs a = a\<lparr>blockQueue := blockQueue a @ bs\<rparr>"

definition stopped :: "readErr option \<Rightarrow> Archiver \<Rightarrow> Archiver" where
  "stopped err a = (if err = Some EOF then a
           else Warning ''file read error; file contents will be incomplete:'' a)"

definition add :: "Block list \<Rightarrow> string list \<Rightarrow> string list \<Rightarrow> logEntry list \<Rightarrow> int \<Rightarrow> Archiver \<Rightarrow> Archiver" where
  "add bs ds fs ls w a =
     a\<lparr>blockQueue := blockQueue a @ bs, directoryScanQueue := directoryScanQueue a @ ds,
       fileReadQueue := fileReadQueue a @ fs, Logger := Logger a @ ls,
       workInProgress := workInProgress a + w\<rparr>"

definition stopLog :: "readErr option \<Rightarrow> logEntry list" where
  "stopLog err = (if err = Some EOF then []
     else [LogWarning ''file read error; file contents will be incomplete:''])"

definition ownerOf :: "File \<Rightarrow> int \<times> int \<times> 32 word" where
  "ownerOf file = (case Stat file of None \<Rightarrow> (0, 0, 0)
     | Some (m, None) \<Rightarrow> (0, 0, m) | Some (m, Some (u, g)) \<Rightarrow> (uint u, uint g, m))"

definition statLog :: "File \<Rightarrow> logEntry list" where
  "statLog file = (case Stat file of
       None \<Rightarrow> [LogWarning ''file stat error; uid/gid/mode will be incorrect:'']
     | Some (m, None) \<Rightarrow> [LogWarning ''unable to find file uid/gid'']
     | Some (m, Some ug) \<Rightarrow> [])"

text \<open>The number of the first call of Read that does not return plain data.\<close>
definition endAt :: "File \<Rightarrow> nat" where
  "endAt file = (LEAST n. snd (Read file n) \<noteq> None)"

definition verbLog :: "pkg \<Rightarrow> logEntry \<Rightarrow> logEntry list" where
  "verbLog p l = (if Verbose p then [l] else [])"

text \<open>The blocks and log lines of reading one file that opens and whose reads end.\<close>
definition fileBlocks :: "pkg \<Rightarrow> File \<Rightarrow> string \<Rightarrow> Block list" where
  "fileBlocks p file path =
     (case ownerOf file of (u, g, m) \<Rightarrow>
        [metaBlock blockTypeStartOfFile path u g m] @ chunks p file path 0 (endAt file)
        @ [metaBlock blockTypeEndOfFile path 0 0 0])"

definition fileLog :: "pkg \<Rightarrow> File \<Rightarrow> string \<Rightarrow> logEntry list" where
  "fileLog p file path =
     verbLog p (LogWarning path) @ statLog file @ stopLog (snd (Read file (endAt file)))"

definition listed :: "File \<Rightarrow> nat \<Rightarrow> nat \<Rightarrow> string list" where
  "listed dir k n = concat (map (\<lambda>i. fst (Readdirnames dir i)) [k..<k + n])"

definition rdLog :: "File \<Rightarrow> nat \<Rightarrow> nat \<Rightarrow> logEntry list" where
  "rdLog dir k n = concat (map (\<lambda>i. if snd (Readdirnames dir i) \<noteq> None
       then [LogWarning ''error reading directory:''] else []) [k..<k + n])"

text \<open>The number of the first call of Readdirnames that answers EOF.\<close>
definition eofAt :: "File \<Rightarrow> nat" where
  "eofAt dir = (LEAST n. snd (Readdirnames dir n) = Some EOF)"

text \<open>What one name of a listing adds: new directories, new files, log lines.\<close>
definition entry :: "env \<Rightarrow> string list \<Rightarrow> string \<Rightarrow> string \<Rightarrow> string list \<times> string list \<times> logEntry list" where
  "entry e pats d name =
     (let path = Join e d name in
      if excludeFile e pats path then ([], [], [LogVerbose ''skipping excluded file''])
      else case Lstat e path of
             None \<Rightarrow> ([], [], [LogWarning ''unable to lstat file''])
           | Some fileMode \<Rightarrow>
               if fileMode AND ModeSymlink \<noteq> 0 then ([], [], [LogWarning ''skipping symbolic link''])
               else if fileMode AND ModeDir \<noteq> 0 then ([path], [], [])
               else ([], [path], []))"

definition subdirs :: "env \<Rightarrow> string list \<Rightarrow> string \<Rightarrow> string list \<Rightarrow> string list" where
  "subdirs e pats d names = concat (map (\<lambda>n. fst (entry e pats d n)) names)"

definition files :: "env \<Rightarrow> string list \<Rightarrow> string \<Rightarrow> string list \<Rightarrow> string list" where
  "files e pats d names = concat (map (\<lambda>n. fst (snd (entry e pats d n))) names)"

definition entryLog :: "env \<Rightarrow> string list \<Rightarrow> string \<Rightarrow> string list \<Rightarrow> logEntry list" where
  "entryLog e pats d names = concat (map (\<lambda>n. snd (snd (entry e pats d n))) names)"

definition dirLog :: "pkg \<Rightarrow> env \<Rightarrow> string list \<Rightarrow> File \<Rightarrow> string \<Rightarrow> logEntry list" where
  "dirLog p e pats dir d =
     verbLog p (LogVerbose d) @ statLog dir @ rdLog dir 0 (eofAt dir)
     @ entryLog e pats d (listed dir 0 (eofAt dir))"

definition dirBlock :: "File \<Rightarrow> string \<Rightarrow> Block" where
  "dirBlock dir d = (case ownerOf dir of (u, g, m) \<Rightarrow> metaBlock blockTypeDirectory d u g m)"

inductive runs :: "pkg \<Rightarrow> env \<Rightarrow> Archiver \<Rightarrow> Archiver \<Rightarrow> bool" for p e where
  finished: "directoryScanQueue a = [] \<Longrightarrow> fileReadQueue a = [] \<Longrightarrow> workInProgress a = 0
      \<Longrightarrow> runs p e a a"
| scan: "directoryScanQueue a = d # ds
      \<Longrightarrow> directoryScanner p e d (a\<lparr>directoryScanQueue := ds\<rparr>) = Some a1
      \<Longrightarrow> runs p e a1 a' \<Longrightarrow> runs p e a a'"
| read: "directoryScanQueue a = [] \<Longrightarrow> fileReadQueue a = f # fs
      \<Longrightarrow> fileReader p e f (a\<lparr>fileReadQueue := fs\<rparr>) = Some a1
      \<Longrightarrow> runs p e a1 a' \<Longrightarrow> runs p e a a'"

text \<open>A block the writer can take: not of checksum type, and a count within the buffer.\<close>
definition writable :: "Block \<Rightarrow> bool" where
  "writable b \<longleftrightarrow> blockType b \<noteq> blockTypeChecksum
     \<and> (blockType b = blockTypeData \<longrightarrow> unat (numBytes b) \<le> length (buffer b))"

text \<open>A block whose lengths fit their two-byte fields.\<close>
fun fits :: "wireBlock \<Rightarrow> bool" where
  "fits (Directory path u g m) = (length path < 65536)"
| "fits (StartOfFile path u g m) = (length path < 65536)"
| "fits (Data path d) = (length path < 65536 \<and> length d < 65536)"
| "fits (EndOfFile path) = (length path < 65536)"
| "fits (Checksum v) = True"

text \<open>The first three bytes of a checksum block: zero path length and type byte.\<close>

definition checksumPrefix :: "pkg \<Rightarrow> byte list" where
  "checksumPrefix p = bigEndian 2 0 @ [typeByte p blockTypeChecksum]"

text \<open>
  The blocks that \<open>writeBlocks\<close> lays down for the queue \<open>bs\<close>, after \<open>n\<close> blocks and the
  bytes \<open>sofar\<close> of the stream: each block of the queue, a checksum after every block whose
  number is a multiple of 1000, and the final checksum.
\<close>

fun laid :: "pkg \<Rightarrow> byte list \<Rightarrow> nat \<Rightarrow> Block list \<Rightarrow> wireBlock list" where
  "laid p sofar n [] = [Checksum (crc64 (sofar @ checksumPrefix p))]"
| "laid p sofar n (b # bs) =
     (if Suc n mod 1000 = 0
      then logical b # Checksum (crc64 (sofar @ wire p (logical b) @ checksumPrefix p))
           # laid p (sofar @ wire p (logical b)
                     @ wire p (Checksum (crc64 (sofar @ wire p (logical b) @ checksumPrefix p))))
               (Suc n) bs
      else logical b # laid p (sofar @ wire p (logical b)) (Suc n) bs)"







section \<open>A small world to run the model in\<close>

text \<open>
  A package with a two-byte header and chunks of four bytes, and a tree \<open>r\<close> holding a
  three-byte file \<open>x\<close> and an empty directory \<open>d\<close> whose \<open>Stat\<close> fails.  The sink takes
  every write.
\<close>

definition pkg0 :: pkg where
  "pkg0 = \<lparr>fastArchiverHeader = [0x46, 0x41], BlockSize = 4, Verbose = False,
           typeByte = (\<lambda>t. case t of blockTypeData \<Rightarrow> 0 | blockTypeStartOfFile \<Rightarrow> 1
              | blockTypeEndOfFile \<Rightarrow> 2 | blockTypeDirectory \<Rightarrow> 3 | blockTypeChecksum \<Rightarrow> 4)\<rparr>"

definition fileX :: File where
  "fileX = \<lparr>Stat = Some (0x1A4, Some (1000, 1000)),
            Readdirnames = (\<lambda>k. ([], Some ReadFailed)),
            Read = (\<lambda>k. if k = 0 then ([1, 2, 3], None) else ([], Some EOF))\<rparr>"

definition dirR :: File where
  "dirR = \<lparr>Stat = Some (0x800001ED, Some (1000, 1000)),
           Readdirnames = (\<lambda>k. if k = 0 then ([''x'', ''d''], None) else ([], Some EOF)),
           Read = (\<lambda>k. ([], Some ReadFailed))\<rparr>"

definition dirD :: File where
  "dirD = \<lparr>Stat = None,
           Readdirnames = (\<lambda>k. ([], Some EOF)),
           Read = (\<lambda>k. ([], Some ReadFailed))\<rparr>"

definition env0 :: env where
  "env0 = \<lparr>Open = (\<lambda>s. if s = ''r'' then Some dirR else if s = ''r/x'' then Some fileX
                       else if s = ''r/d'' then Some dirD else None),
           Lstat = (\<lambda>s. if s = ''r'' then Some 0x800001ED else if s = ''r/x'' then Some 0x1A4
                        else if s = ''r/d'' then Some 0x800001ED else None),
           Join = (\<lambda>d n. d @ ''/'' @ n),
           Match = (\<lambda>pat s. (pat = s, False)),
           accepts = (\<lambda>h p. True)\<rparr>"




text \<open>
  An archiver as \<open>NewArchiver\<close> returns it, the public field \<open>ExcludePatterns\<close> set to one
  pattern, and the root \<open>r\<close> registered.
\<close>

definition excluding :: Archiver where
  "excluding = AddDir ''r'' (NewArchiver\<lparr>ExcludePatterns := [''r/x'']\<rparr>)"






section \<open>Properties\<close>

subsection \<open>The encoders agree with the big-endian format\<close>

lemma byte_mod: "(word_of_nat (n mod 256) :: byte) = word_of_nat n"
  by (simp add: word_of_nat_eq_iff take_bit_eq_mod)

lemma ucast_byte: "(ucast (w :: 'a::len word) :: byte) = word_of_nat (unat w)"
  by simp

lemma unat_drop: "unat (drop_bit k (w :: 'a::len word)) = unat w div 2 ^ k"
  by (simp only: unat_drop_bit_eq drop_bit_eq_div [where ?'a = nat])

lemma bigEndian_2: "bigEndian 2 n = [word_of_nat (n div 2 ^ 8), word_of_nat n]"
proof -
  have "bigEndian (Suc (Suc 0)) n = [word_of_nat (n div 2 ^ 8), word_of_nat n]"
    by (simp add: byte_mod)
  then show ?thesis by (simp only: numeral_2_eq_2)
qed

lemma bigEndian_4:
  "bigEndian 4 n = [word_of_nat (n div 2 ^ 24), word_of_nat (n div 2 ^ 16),
                    word_of_nat (n div 2 ^ 8), word_of_nat n]"
proof -
  have "bigEndian (Suc (Suc (Suc (Suc 0)))) n =
          [word_of_nat (n div 2 ^ 24), word_of_nat (n div 2 ^ 16),
           word_of_nat (n div 2 ^ 8), word_of_nat n]"
    by (simp add: byte_mod div_mult2_eq [symmetric])
  moreover have "(4::nat) = Suc (Suc (Suc (Suc 0)))" by simp
  ultimately show ?thesis by (simp only:)
qed

lemma bigEndian_8:
  "bigEndian 8 n = [word_of_nat (n div 2 ^ 56), word_of_nat (n div 2 ^ 48),
                    word_of_nat (n div 2 ^ 40), word_of_nat (n div 2 ^ 32),
                    word_of_nat (n div 2 ^ 24), word_of_nat (n div 2 ^ 16),
                    word_of_nat (n div 2 ^ 8), word_of_nat n]"
proof -
  have "bigEndian (Suc (Suc (Suc (Suc (Suc (Suc (Suc (Suc 0)))))))) n =
          [word_of_nat (n div 2 ^ 56), word_of_nat (n div 2 ^ 48),
           word_of_nat (n div 2 ^ 40), word_of_nat (n div 2 ^ 32),
           word_of_nat (n div 2 ^ 24), word_of_nat (n div 2 ^ 16),
           word_of_nat (n div 2 ^ 8), word_of_nat n]"
    by (simp add: byte_mod div_mult2_eq [symmetric])
  moreover have "(8::nat) = Suc (Suc (Suc (Suc (Suc (Suc (Suc (Suc 0)))))))" by simp
  ultimately show ?thesis by (simp only:)
qed

lemma putUint16_bigEndian: "putUint16 v = bigEndian 2 (unat v)"
  unfolding putUint16_def bigEndian_2 ucast_byte unat_drop by (rule refl)

lemma putUint32_bigEndian: "putUint32 v = bigEndian 4 (unat v)"
  unfolding putUint32_def bigEndian_4 ucast_byte unat_drop by (rule refl)

lemma putUint64_bigEndian: "putUint64 v = bigEndian 8 (unat v)"
  unfolding putUint64_def bigEndian_8 ucast_byte unat_drop by (rule refl)

lemma unat_word_of_int32: "unat (word_of_int i :: 32 word) = nat (i mod 2 ^ 32)"
  by (simp add: unat_eq_nat_uint uint_word_of_int)

lemma length_bytesOf: "length (bytesOf s) = length s"
  by (simp add: bytesOf_def)

subsection \<open>The running CRC is the CRC of everything written\<close>

lemma update_append: "update (update c a) b = update c (a @ b)"
  by (simp add: update_def)

lemma update_Nil: "update c [] = c"
  by (simp add: update_def)

subsection \<open>What one block adds to the stream\<close>

lemma writeBlock_Ret_None:
  assumes "writeBlock p e b w = Ret (None, w')"
  shows "w' = \<lparr>written = written w @ header p b @ payload b,
               crc = update (crc w) (header p b @ payload b)\<rparr>
    \<and> blockType b \<noteq> blockTypeChecksum
    \<and> (blockType b = blockTypeData \<longrightarrow> unat (numBytes b) \<le> length (buffer b))"
  using assms
  apply (cases w)
  apply (cases "blockType b")
  apply (auto simp: writeBlock_def Let_def ifNil_def Write_def header_def payload_def
      length_bytesOf update_append split: if_splits prod.splits option.splits)
  done

lemma writeChecksumBlock_None:
  assumes "writeChecksumBlock p e w = (None, w')"
  shows "w' = \<lparr>written = written w @ putUint16 0 @ [typeByte p blockTypeChecksum]
                    @ putUint64 (update (crc w) (putUint16 0 @ [typeByte p blockTypeChecksum])),
               crc = update (crc w) (putUint16 0 @ [typeByte p blockTypeChecksum]
                    @ putUint64 (update (crc w) (putUint16 0 @ [typeByte p blockTypeChecksum])))\<rparr>"
  using assms
  apply (cases w)
  apply (auto simp: writeChecksumBlock_def Let_def ifNil_def Write_def update_append
      split: if_splits prod.splits option.splits)
  done

text \<open>
  C8.  A block that \<open>writeBlock\<close> writes without error adds to the stream: the length of
  its path as two big-endian bytes, the bytes of the path, the type byte, and then, for a
  Directory or StartOfFile block, uid, gid and mode as three big-endian 32-bit numbers;
  for an EndOfFile block nothing; for a Data block a two-byte big-endian count followed by
  exactly that many bytes of the buffer.  A checksum block is a zero path length, no path
  bytes, the type byte and the eight big-endian bytes of the hash value.  (The path is
  shorter than 65536 bytes, as every path the operating system opens is; uid and gid are
  written modulo \<open>2 ^ 32\<close>, the conversion \<open>uint32(b.uid)\<close>.)
\<close>

theorem block_wire_format:
  "(length (filePath b) < 65536 \<and> writeBlock p e b w = Ret (None, w') \<longrightarrow>
      written w' = written w @ bigEndian 2 (length (filePath b)) @ bytesOf (filePath b)
        @ [typeByte p (blockType b)] @
        (case blockType b of
           blockTypeDirectory \<Rightarrow>
             bigEndian 4 (nat (uid b mod 2 ^ 32)) @ bigEndian 4 (nat (gid b mod 2 ^ 32))
             @ bigEndian 4 (unat (mode b))
         | blockTypeStartOfFile \<Rightarrow>
             bigEndian 4 (nat (uid b mod 2 ^ 32)) @ bigEndian 4 (nat (gid b mod 2 ^ 32))
             @ bigEndian 4 (unat (mode b))
         | blockTypeEndOfFile \<Rightarrow> []
         | blockTypeData \<Rightarrow>
             bigEndian 2 (length (take (unat (numBytes b)) (buffer b)))
             @ take (unat (numBytes b)) (buffer b)
         | blockTypeChecksum \<Rightarrow> []))
   \<and> (writeChecksumBlock p e w = (None, w') \<longrightarrow>
      written w' = written w @ bigEndian 2 0 @ bytesOf [] @ [typeByte p blockTypeChecksum]
        @ bigEndian 8 (unat (update (crc w) (bigEndian 2 0 @ [typeByte p blockTypeChecksum]))))"
proof (intro conjI impI)
  assume a: "length (filePath b) < 65536 \<and> writeBlock p e b w = Ret (None, w')"
  then have len: "unat (word_of_nat (length (filePath b)) :: 16 word) = length (filePath b)"
    by (simp add: unat_of_nat)
  from a have w: "writeBlock p e b w = Ret (None, w')" by simp
  note r = writeBlock_Ret_None [OF w]
  from r have d: "blockType b = blockTypeData
      \<Longrightarrow> length (take (unat (numBytes b)) (buffer b)) = unat (numBytes b)"
    by simp
  from r have "written w' = written w @ header p b @ payload b" by simp
  then show "written w' = written w @ bigEndian 2 (length (filePath b)) @ bytesOf (filePath b)
        @ [typeByte p (blockType b)] @
        (case blockType b of
           blockTypeDirectory \<Rightarrow>
             bigEndian 4 (nat (uid b mod 2 ^ 32)) @ bigEndian 4 (nat (gid b mod 2 ^ 32))
             @ bigEndian 4 (unat (mode b))
         | blockTypeStartOfFile \<Rightarrow>
             bigEndian 4 (nat (uid b mod 2 ^ 32)) @ bigEndian 4 (nat (gid b mod 2 ^ 32))
             @ bigEndian 4 (unat (mode b))
         | blockTypeEndOfFile \<Rightarrow> []
         | blockTypeData \<Rightarrow>
             bigEndian 2 (length (take (unat (numBytes b)) (buffer b)))
             @ take (unat (numBytes b)) (buffer b)
         | blockTypeChecksum \<Rightarrow> [])"
    using d
    by (cases "blockType b")
       (simp_all only: header_def payload_def putUint16_bigEndian putUint32_bigEndian len
          unat_word_of_int32 blockType.case append_assoc)
next
  assume "writeChecksumBlock p e w = (None, w')"
  from writeChecksumBlock_None [OF this]
  have "written w' = written w @ putUint16 0 @ [typeByte p blockTypeChecksum]
                    @ putUint64 (update (crc w) (putUint16 0 @ [typeByte p blockTypeChecksum]))"
    by simp
  then show "written w' = written w @ bigEndian 2 0 @ bytesOf [] @ [typeByte p blockTypeChecksum]
        @ bigEndian 8 (unat (update (crc w) (bigEndian 2 0 @ [typeByte p blockTypeChecksum])))"
    by (simp add: putUint16_bigEndian putUint64_bigEndian bytesOf_def del: bigEndian.simps)
qed

theorem block_wire_format_witness:
  "length ''r/x'' < (65536::nat)
   \<and> writeBlock pkg0 env0
        \<lparr>filePath = ''r/x'', numBytes = 3, buffer = [1, 2, 3, 0], blockType = blockTypeData,
         uid = 0, gid = 0, mode = 0\<rparr> \<lparr>written = [], crc = 0\<rparr>
       = Ret (None, \<lparr>written = [0, 3, 114, 47, 120, 0, 0, 3, 1, 2, 3],
                     crc = update 0 [0, 3, 114, 47, 120, 0, 0, 3, 1, 2, 3]\<rparr>)
   \<and> [0, 3, 114, 47, 120, 0, 0, 3, 1, 2, 3]
       = bigEndian 2 3 @ bytesOf ''r/x'' @ [0] @ bigEndian 2 3 @ [1, 2, 3 :: byte]"
proof -
  let ?b = "\<lparr>filePath = ''r/x'', numBytes = 3, buffer = [1, 2, 3, 0], blockType = blockTypeData,
         uid = 0, gid = 0, mode = 0\<rparr>"
  let ?w' = "\<lparr>written = [0, 3, 114, 47, 120, 0, 0, 3, 1, 2, 3],
                     crc = update 0 [0, 3, 114, 47, 120, 0, 0, 3, 1, 2, 3]\<rparr>"
  have w: "writeBlock pkg0 env0 ?b \<lparr>written = [], crc = 0\<rparr> = Ret (None, ?w')"
    by (simp add: writeBlock_def Let_def ifNil_def Write_def pkg0_def env0_def putUint16_def
        bytesOf_def update_append)
  have l: "length ''r/x'' < (65536::nat)" by simp
  from block_wire_format [of ?b pkg0 env0 "\<lparr>written = [], crc = 0\<rparr>" ?w'] w l
  show ?thesis by (simp add: bigEndian_2 del: bigEndian.simps)
qed

subsection \<open>The read loop\<close>

lemma sends_send: "sends bs (send b a) = sends (b # bs) a"
  by (simp add: sends_def send_def)

lemma chunks_Suc: "chunks p file path k (Suc n) = dataBlock p path (fst (Read file k)) # chunks p file path (Suc k) n"
  using upt_conv_Cons [of k "k + Suc n"] by (simp add: chunks_def)

lemma readLoop_stop:
  "snd (Read file k) \<noteq> None \<Longrightarrow>
   readLoop p file path k a =
     Some (if snd (Read file k) = Some EOF then a
           else Warning ''file read error; file contents will be incomplete:'' a)"
  by (subst readLoop.simps) (auto split: prod.splits)

lemma readLoop_step:
  "snd (Read file k) = None \<Longrightarrow>
   readLoop p file path k a = readLoop p file path (Suc k) (send (dataBlock p path (fst (Read file k))) a)"
  by (subst readLoop.simps) (auto split: prod.splits simp: dataBlock_def)

lemma readLoop_steps:
  "(\<And>i. i < n \<Longrightarrow> snd (Read file (k + i)) = None) \<Longrightarrow>
   readLoop p file path k a = readLoop p file path (k + n) (sends (chunks p file path k n) a)"
proof (induction n arbitrary: k a)
  case 0
  then show ?case by (simp add: chunks_def sends_def)
next
  case (Suc n)
  have k: "snd (Read file k) = None" using Suc.prems [of 0] by simp
  have "readLoop p file path k a = readLoop p file path (Suc k) (send (dataBlock p path (fst (Read file k))) a)"
    by (rule readLoop_step [OF k])
  also have "\<dots> = readLoop p file path (Suc k + n) (sends (chunks p file path (Suc k) n) (send (dataBlock p path (fst (Read file k))) a))"
    using Suc.prems [of "Suc i" for i] by (intro Suc.IH) simp
  finally show ?case by (simp add: sends_send chunks_Suc)
qed

lemma readLoop_ends:
  assumes "readLoop p file path k a = Some a'"
  shows "\<exists>n. snd (Read file (k + n)) \<noteq> None"
proof (rule readLoop.raw_induct [OF _ assms])
  fix rl and p :: pkg and fl :: File and path :: string and k :: nat and a a' :: Archiver
  assume IH: "\<And>(p::pkg) (fl::File) (path::string) k (a::Archiver) a'. rl p fl path k a = Some a' \<Longrightarrow> \<exists>n. snd (Read fl (k + n)) \<noteq> None"
    and body: "(case Read fl k of (bytes, err) \<Rightarrow>
        if err = Some EOF then Some a
        else if err \<noteq> None
        then Some (Warning ''file read error; file contents will be incomplete:'' a)
        else rl p fl path (k + 1)
               (send \<lparr>filePath = path, numBytes = word_of_nat (length bytes),
                      buffer = bytes @ replicate (BlockSize p - length bytes) 0,
                      blockType = blockTypeData, uid = 0, gid = 0, mode = 0\<rparr> a)) = Some a'"
  show "\<exists>n. snd (Read fl (k + n)) \<noteq> None"
  proof (cases "snd (Read fl k) = None")
    case True
    with body have "rl p fl path (k + 1) (send (dataBlock p path (fst (Read fl k))) a) = Some a'"
      by (auto split: prod.splits simp: dataBlock_def)
    from IH [OF this] obtain n where "snd (Read fl (k + 1 + n)) \<noteq> None" by blast
    then have "snd (Read fl (k + Suc n)) \<noteq> None" by simp
    then show ?thesis by blast
  next
    case False
    then have "snd (Read fl (k + 0)) \<noteq> None" by simp
    then show ?thesis by blast
  qed
qed

lemma readLoop_first_stop:
  assumes "snd (Read file (k + n)) \<noteq> None" "\<And>i. i < n \<Longrightarrow> snd (Read file (k + i)) = None"
  shows "readLoop p file path k a = Some (stopped (snd (Read file (k + n))) (sends (chunks p file path k n) a))"
  using readLoop_steps [OF assms(2), of n p path a] readLoop_stop [OF assms(1)]
  by (simp add: stopped_def)

lemma chunks_types: "b \<in> set (chunks p file path k n) \<Longrightarrow> blockType b = blockTypeData \<and> filePath b = path"
  by (auto simp: chunks_def dataBlock_def)

subsection \<open>Effects of a unit of work as one record update\<close>

lemma add_add: "add bs2 ds2 fs2 ls2 w2 (add bs1 ds1 fs1 ls1 w1 a) = add (bs1 @ bs2) (ds1 @ ds2) (fs1 @ fs2) (ls1 @ ls2) (w1 + w2) a"
  by (simp add: add_def)

lemma add_nothing: "add [] [] [] [] 0 a = a"
  by (simp add: add_def)

lemma Warning_add: "Warning msg a = add [] [] [] [LogWarning msg] 0 a"
  and VerboseLog_add: "VerboseLog msg a = add [] [] [] [LogVerbose msg] 0 a"
  and send_add: "send b a = add [b] [] [] [] 0 a"
  and sends_add: "sends bs a = add bs [] [] [] 0 a"
  and Done_add: "Done a = add [] [] [] [] (- 1) a"
  by (simp_all add: add_def Warning_def VerboseLog_def send_def sends_def Done_def)

lemma add_handles: "add bs ds fs ls w (a\<lparr>handles := h\<rparr>) = (add bs ds fs ls w a)\<lparr>handles := h\<rparr>"
  and handles_add: "handles (add bs ds fs ls w a) = handles a"
  and add_error: "add bs ds fs ls w (a\<lparr>error := er\<rparr>) = (add bs ds fs ls w a)\<lparr>error := er\<rparr>"
  and error_add: "error (add bs ds fs ls w a) = error a"
  and excludePatterns_add: "excludePatterns (add bs ds fs ls w a) = excludePatterns a"
  and output_add: "output' (add bs ds fs ls w a) = output' a"
  and blockQueue_add: "blockQueue (add bs ds fs ls w a) = blockQueue a @ bs"
  and directoryScanQueue_add: "directoryScanQueue (add bs ds fs ls w a) = directoryScanQueue a @ ds"
  and fileReadQueue_add: "fileReadQueue (add bs ds fs ls w a) = fileReadQueue a @ fs"
  and workInProgress_add: "workInProgress (add bs ds fs ls w a) = workInProgress a + w"
  by (simp_all add: add_def)

lemma stopped_add: "stopped err a = add [] [] [] (stopLog err) 0 a"
  by (simp add: stopped_def stopLog_def Warning_add add_nothing)

lemma getModeOwnership_add: "getModeOwnership file a = (ownerOf file, add [] [] [] (statLog file) 0 a)"
  by (auto simp: getModeOwnership_def ownerOf_def statLog_def Warning_add add_nothing
      split: option.splits)

lemma endAt:
  assumes "snd (Read file j) \<noteq> None"
  shows "snd (Read file (endAt file)) \<noteq> None" and "\<And>i. i < endAt file \<Longrightarrow> snd (Read file i) = None"
proof -
  show "snd (Read file (endAt file)) \<noteq> None" unfolding endAt_def using assms by (rule LeastI)
  show "\<And>i. i < endAt file \<Longrightarrow> snd (Read file i) = None"
    unfolding endAt_def using not_less_Least by blast
qed

lemma readLoop_eq:
  "readLoop p file path 0 a =
     (if \<exists>j. snd (Read file j) \<noteq> None
      then Some (add (chunks p file path 0 (endAt file)) [] [] (stopLog (snd (Read file (endAt file)))) 0 a)
      else None)"
proof (cases "\<exists>j. snd (Read file j) \<noteq> None")
  case True
  then obtain j where j: "snd (Read file j) \<noteq> None" by blast
  have "snd (Read file (0 + endAt file)) \<noteq> None" using endAt(1) [OF j] by simp
  moreover have "\<And>i. i < endAt file \<Longrightarrow> snd (Read file (0 + i)) = None" using endAt(2) [OF j] by simp
  ultimately have "readLoop p file path 0 a =
      Some (stopped (snd (Read file (0 + endAt file))) (sends (chunks p file path 0 (endAt file)) a))"
    by (rule readLoop_first_stop)
  with True show ?thesis by (simp add: stopped_add sends_add add_add)
next
  case False
  have "readLoop p file path 0 a = None"
  proof (cases "readLoop p file path 0 a")
    case (Some a')
    from readLoop_ends [OF this] False show ?thesis by auto
  qed simp
  with False show ?thesis by simp
qed

lemma fileReader_eq:
  "fileReader p e path a =
     (case Open e path of
        None \<Rightarrow> Some (add [] [] [] (verbLog p (LogWarning path) @ [LogWarning ''file open error:'']) (- 1) a)
      | Some file \<Rightarrow>
          if \<exists>j. snd (Read file j) \<noteq> None
          then Some (add (fileBlocks p file path) [] [] (fileLog p file path) (- 1) a)
          else None)"
proof (cases "Open e path")
  case None
  then show ?thesis
    by (simp add: fileReader_def verbLog_def Warning_add Done_add add_add add_nothing)
next
  case (Some fl)
  obtain u g m where ugm: "ownerOf fl = (u, g, m)" by (cases "ownerOf fl")
  show ?thesis
  proof (cases "\<exists>j. snd (Read fl j) \<noteq> None")
    case True
    then show ?thesis using Some ugm
      by (simp add: fileReader_def readLoop_eq getModeOwnership_add verbLog_def fileBlocks_def
          fileLog_def Warning_add Done_add send_add add_add add_nothing add_handles Close_def
          handles_add metaBlock_def)
  next
    case False
    then show ?thesis using Some ugm
      by (simp add: fileReader_def readLoop_eq getModeOwnership_add)
  qed
qed

subsection \<open>readdirnames and directoryScanner as effects\<close>

lemma listed_Suc: "listed dir k (Suc n) = fst (Readdirnames dir k) @ listed dir (Suc k) n"
  using upt_conv_Cons [of k "k + Suc n"] by (simp add: listed_def)

lemma rdLog_Suc: "rdLog dir k (Suc n) =
    (if snd (Readdirnames dir k) \<noteq> None then [LogWarning ''error reading directory:''] else [])
    @ rdLog dir (Suc k) n"
  using upt_conv_Cons [of k "k + Suc n"] by (simp add: rdLog_def)

lemma readdirnames_stop:
  "snd (Readdirnames dir k) = Some EOF \<Longrightarrow> readdirnames dir k sent a = Some (sent, a)"
  by (subst readdirnames.simps) (auto split: prod.splits)

lemma readdirnames_step:
  "snd (Readdirnames dir k) \<noteq> Some EOF \<Longrightarrow>
   readdirnames dir k sent a =
     readdirnames dir (Suc k) (sent @ fst (Readdirnames dir k))
       (add [] [] [] (if snd (Readdirnames dir k) \<noteq> None
           then [LogWarning ''error reading directory:''] else []) 0 a)"
  by (subst readdirnames.simps) (auto split: prod.splits simp: Warning_add add_nothing)

lemma readdirnames_steps:
  "(\<And>i. i < n \<Longrightarrow> snd (Readdirnames dir (k + i)) \<noteq> Some EOF) \<Longrightarrow>
   readdirnames dir k sent a =
     readdirnames dir (k + n) (sent @ listed dir k n) (add [] [] [] (rdLog dir k n) 0 a)"
proof (induction n arbitrary: k sent a)
  case 0
  then show ?case by (simp add: listed_def rdLog_def add_nothing)
next
  case (Suc n)
  let ?l = "if snd (Readdirnames dir k) \<noteq> None then [LogWarning ''error reading directory:''] else []"
  have k: "snd (Readdirnames dir k) \<noteq> Some EOF" using Suc.prems [of 0] by simp
  have "readdirnames dir k sent a =
     readdirnames dir (Suc k) (sent @ fst (Readdirnames dir k)) (add [] [] [] ?l 0 a)"
    by (rule readdirnames_step [OF k])
  also have "\<dots> = readdirnames dir (Suc k + n) ((sent @ fst (Readdirnames dir k)) @ listed dir (Suc k) n)
       (add [] [] [] (rdLog dir (Suc k) n) 0 (add [] [] [] ?l 0 a))"
    using Suc.prems [of "Suc i" for i] by (intro Suc.IH) simp
  finally show ?case by (simp add: listed_Suc rdLog_Suc add_add)
qed

lemma readdirnames_ends:
  assumes "readdirnames dir k sent a = Some r"
  shows "\<exists>n. snd (Readdirnames dir (k + n)) = Some EOF"
proof (rule readdirnames.raw_induct [OF _ assms])
  fix rd and dir :: File and k :: nat and sent :: "string list" and a :: Archiver
    and r :: "string list \<times> Archiver"
  assume IH: "\<And>(dir::File) k (sent::string list) (a::Archiver) r.
       rd dir k sent a = Some r \<Longrightarrow> \<exists>n. snd (Readdirnames dir (k + n)) = Some EOF"
    and body: "(case Readdirnames dir k of (names, err) \<Rightarrow>
        if err = Some EOF then Some (sent, a)
        else rd dir (k + 1) (sent @ names)
               (if err \<noteq> None then Warning ''error reading directory:'' a else a)) = Some r"
  show "\<exists>n. snd (Readdirnames dir (k + n)) = Some EOF"
  proof (cases "snd (Readdirnames dir k) = Some EOF")
    case True
    then have "snd (Readdirnames dir (k + 0)) = Some EOF" by simp
    then show ?thesis by blast
  next
    case False
    with body have "rd dir (k + 1) (sent @ fst (Readdirnames dir k))
        (if snd (Readdirnames dir k) \<noteq> None then Warning ''error reading directory:'' a else a) = Some r"
      by (auto split: prod.splits)
    from IH [OF this] obtain n where "snd (Readdirnames dir (k + 1 + n)) = Some EOF" by blast
    then have "snd (Readdirnames dir (k + Suc n)) = Some EOF" by simp
    then show ?thesis by blast
  qed
qed

lemma readdirnames_eq:
  "readdirnames dir 0 [] a =
     (if \<exists>j. snd (Readdirnames dir j) = Some EOF
      then Some (listed dir 0 (eofAt dir), add [] [] [] (rdLog dir 0 (eofAt dir)) 0 a)
      else None)"
proof (cases "\<exists>j. snd (Readdirnames dir j) = Some EOF")
  case True
  then obtain j where j: "snd (Readdirnames dir j) = Some EOF" by blast
  have n: "snd (Readdirnames dir (eofAt dir)) = Some EOF"
    unfolding eofAt_def using j by (rule LeastI)
  have least: "\<And>i. i < eofAt dir \<Longrightarrow> snd (Readdirnames dir (0 + i)) \<noteq> Some EOF"
    unfolding eofAt_def using not_less_Least by auto
  show ?thesis
    using readdirnames_steps [OF least, of "eofAt dir" "[]" a] readdirnames_stop [OF n] True
    by simp
next
  case False
  have "readdirnames dir 0 [] a = None"
  proof (cases "readdirnames dir 0 [] a")
    case (Some r)
    from readdirnames_ends [OF this] False show ?thesis by auto
  qed simp
  with False show ?thesis by simp
qed

lemma scanEntry_add:
  "scanEntry e d a name =
     add [] (fst (entry e (excludePatterns a) d name)) (fst (snd (entry e (excludePatterns a) d name)))
       (snd (snd (entry e (excludePatterns a) d name)))
       (int (length (fst (entry e (excludePatterns a) d name)))
        + int (length (fst (snd (entry e (excludePatterns a) d name))))) a"
  by (auto simp: scanEntry_def entry_def Let_def Warning_add VerboseLog_add add_def
      split: option.splits)

lemma foldl_scanEntry_add:
  "foldl (scanEntry e d) a names =
     add [] (subdirs e (excludePatterns a) d names) (files e (excludePatterns a) d names)
       (entryLog e (excludePatterns a) d names)
       (int (length (subdirs e (excludePatterns a) d names))
        + int (length (files e (excludePatterns a) d names))) a"
proof (induction names arbitrary: a)
  case Nil
  show ?case by (simp add: subdirs_def files_def entryLog_def add_nothing)
next
  case (Cons n names)
  show ?case
    by (simp add: Cons.IH scanEntry_add [of e d a n] add_add excludePatterns_add subdirs_def
        files_def entryLog_def ac_simps)
qed

lemma directoryScanner_eq:
  "directoryScanner p e d a =
     (if take 1 d = ''/'' then Some ((add [] [] [] [] (- 1) a)\<lparr>error := Some ErrAbsoluteDirectoryPath\<rparr>)
      else case Open e d of
        None \<Rightarrow> Some (add [] [] [] (verbLog p (LogVerbose d) @ [LogWarning ''directory read error:'']) (- 1) a)
      | Some dir \<Rightarrow>
          if \<exists>j. snd (Readdirnames dir j) = Some EOF
          then Some (add [dirBlock dir d]
                 (subdirs e (excludePatterns a) d (listed dir 0 (eofAt dir)))
                 (files e (excludePatterns a) d (listed dir 0 (eofAt dir)))
                 (dirLog p e (excludePatterns a) dir d)
                 (int (length (subdirs e (excludePatterns a) d (listed dir 0 (eofAt dir))))
                  + int (length (files e (excludePatterns a) d (listed dir 0 (eofAt dir)))) - 1) a)
          else None)"
proof (cases "take 1 d = ''/''")
  case True
  then show ?thesis by (simp add: directoryScanner_def Done_add add_error)
next
  case abs: False
  show ?thesis
  proof (cases "Open e d")
    case None
    then show ?thesis using abs
      by (simp add: directoryScanner_def verbLog_def Warning_add VerboseLog_add Done_add add_add add_nothing)
  next
    case (Some dir)
    obtain u g m where ugm: "ownerOf dir = (u, g, m)" by (cases "ownerOf dir")
    show ?thesis
    proof (cases "\<exists>j. snd (Readdirnames dir j) = Some EOF")
      case True
      then show ?thesis using Some ugm abs
        by (simp add: directoryScanner_def readdirnames_eq getModeOwnership_add verbLog_def
            dirBlock_def dirLog_def foldl_scanEntry_add excludePatterns_add
            Warning_add VerboseLog_add Done_add send_add add_add add_nothing add_handles Close_def
            handles_add metaBlock_def)
    next
      case False
      then show ?thesis using Some ugm abs
        by (simp add: directoryScanner_def readdirnames_eq getModeOwnership_add)
    qed
  qed
qed

subsection \<open>The scheduler as an inductive relation\<close>

lemma runs_workers: "runs p e a a' \<Longrightarrow> workers p e a = Some a'"
proof (induction rule: runs.induct)
  case (finished a)
  then show ?case by (subst workers.simps) simp
next
  case (scan a d ds a1 a')
  then show ?case by (subst workers.simps) simp
next
  case (read a f fs a1 a')
  then show ?case by (subst workers.simps) simp
qed

lemma workers_runs:
  assumes "workers p e a = Some a'"
  shows "runs p e a a'"
proof (rule workers.raw_induct [OF _ assms])
  fix wk and p :: pkg and e :: env and a a' :: Archiver
  assume IH: "\<And>(p::pkg) (e::env) (a::Archiver) a'. wk p e a = Some a' \<Longrightarrow> runs p e a a'"
    and body: "(case directoryScanQueue a of
        [] \<Rightarrow> (case fileReadQueue a of
             [] \<Rightarrow> if workInProgress a = 0 then Some a else None
           | path # fs \<Rightarrow> Option.bind (fileReader p e path (a\<lparr>fileReadQueue := fs\<rparr>)) (wk p e))
      | directoryPath # ds \<Rightarrow>
          Option.bind (directoryScanner p e directoryPath (a\<lparr>directoryScanQueue := ds\<rparr>))
            (wk p e)) = Some a'"
  show "runs p e a a'"
  proof (cases "directoryScanQueue a")
    case Nil
    show ?thesis
    proof (cases "fileReadQueue a")
      case fn: Nil
      with Nil body have "workInProgress a = 0" "a' = a" by (auto split: if_splits)
      with Nil fn show ?thesis by (auto intro: runs.finished)
    next
      case (Cons f fs)
      with Nil body obtain a1 where "fileReader p e f (a\<lparr>fileReadQueue := fs\<rparr>) = Some a1"
        "wk p e a1 = Some a'" by (auto simp: bind_eq_Some_conv)
      with Nil Cons IH show ?thesis by (auto intro: runs.read)
    qed
  next
    case (Cons d ds)
    with body obtain a1 where "directoryScanner p e d (a\<lparr>directoryScanQueue := ds\<rparr>) = Some a1"
        "wk p e a1 = Some a'" by (auto simp: bind_eq_Some_conv)
    with Cons IH show ?thesis by (auto intro: runs.scan)
  qed
qed

lemma workers_iff_runs: "workers p e a = Some a' \<longleftrightarrow> runs p e a a'"
  by (blast intro: workers_runs runs_workers)

lemma writable_dataBlock: "writable (dataBlock p path bytes)"
proof -
  have "unat (word_of_nat (length bytes) :: 16 word) \<le> length bytes"
    by (simp add: unat_of_nat)
  then show ?thesis by (simp add: writable_def dataBlock_def)
qed

lemma writable_fileBlocks: "b \<in> set (fileBlocks p file path) \<Longrightarrow> writable b"
  by (auto simp: fileBlocks_def chunks_def writable_dataBlock split: prod.splits)
     (simp_all add: writable_def metaBlock_def)

lemma writable_dirBlock: "writable (dirBlock dir d)"
  by (simp add: dirBlock_def writable_def metaBlock_def split: prod.splits)

lemma fileReader_blocks:
  assumes "fileReader p e f a = Some a1"
  shows "\<exists>bs. blockQueue a1 = blockQueue a @ bs \<and> (\<forall>b\<in>set bs. writable b \<and> filePath b = f)"
proof (cases "Open e f")
  case None
  with assms show ?thesis by (auto simp: fileReader_eq blockQueue_add)
next
  case (Some fl)
  with assms have "a1 = add (fileBlocks p fl f) [] [] (fileLog p fl f) (- 1) a"
    by (auto simp: fileReader_eq split: if_splits)
  moreover have "\<forall>b\<in>set (fileBlocks p fl f). filePath b = f"
    by (auto simp: fileBlocks_def chunks_def dataBlock_def metaBlock_def split: prod.splits)
  ultimately show ?thesis by (auto simp: blockQueue_add writable_fileBlocks)
qed

lemma directoryScanner_blocks:
  assumes "directoryScanner p e d a = Some a1"
  shows "\<exists>bs. blockQueue a1 = blockQueue a @ bs \<and> (\<forall>b\<in>set bs. writable b \<and> filePath b = d)"
proof -
  have "filePath (dirBlock dir d) = d" for dir
    by (simp add: dirBlock_def metaBlock_def split: prod.splits)
  with assms show ?thesis
    by (auto simp: directoryScanner_eq blockQueue_add writable_dirBlock
        split: if_splits option.splits)
qed

lemma runs_writable:
  "runs p e a a' \<Longrightarrow> \<forall>b\<in>set (blockQueue a). writable b \<Longrightarrow> \<forall>b\<in>set (blockQueue a'). writable b"
proof (induction rule: runs.induct)
  case (finished a)
  then show ?case by simp
next
  case (scan a d ds a1 a')
  from directoryScanner_blocks [OF scan(2)] scan(5) have "\<forall>b\<in>set (blockQueue a1). writable b"
    by auto
  then show ?case by (rule scan.IH)
next
  case (read a f fs a1 a')
  from fileReader_blocks [OF read(3)] read(6) have "\<forall>b\<in>set (blockQueue a1). writable b"
    by auto
  then show ?case by (rule read.IH)
qed

lemma writeBlock_no_panic: "writable b \<Longrightarrow> \<exists>r. writeBlock p e b w = Ret r"
  by (cases "blockType b")
     (auto simp: writable_def writeBlock_def Let_def split: prod.splits option.splits)

lemma writeBlocks_no_panic:
  "\<forall>b\<in>set bs. writable b \<Longrightarrow> \<exists>r. writeBlocks p e bs n w = Ret r"
proof (induction bs arbitrary: n w)
  case Nil
  show ?case by simp
next
  case (Cons b bs)
  then obtain r where r: "writeBlock p e b w = Ret r" using writeBlock_no_panic [of b p e w] by auto
  obtain err w1 where r1: "r = (err, w1)" by (cases r)
  show ?case using Cons r r1 by (auto simp: Let_def split: prod.splits)
qed

lemma archiveWriter_no_panic:
  "\<forall>b\<in>set bs. writable b \<Longrightarrow> \<exists>r. archiveWriter p e out bs = Ret r"
  using writeBlocks_no_panic [of bs p e 0]
  by (auto simp: archiveWriter_def split: prod.splits option.splits)

lemma Run_no_panic: "Run p e a \<noteq> Some (Panic x)"
proof
  assume r: "Run p e a = Some (Panic x)"
  let ?a0 = "a\<lparr>fileReadQueue := [], blockQueue := [], error := None\<rparr>"
  from r obtain a1 where w: "workers p e ?a0 = Some a1"
    and aw: "archiveWriter p e (output' a1) (blockQueue a1) = Panic x"
    by (auto simp: Run_def split: option.splits res.splits prod.splits)
  from w have "runs p e ?a0 a1" by (rule workers_runs)
  from runs_writable [OF this] have "\<forall>b\<in>set (blockQueue a1). writable b" by simp
  from archiveWriter_no_panic [OF this, of p e "output' a1"] aw show False by auto
qed

subsection \<open>The file reader and the directory scanner, one item at a time\<close>


text \<open>
  C7.  If the file does not open, \<open>fileReader\<close> sends no block, leaves no handle open and
  marks the unit of work done (the wait group goes down by one), and returns, so the run
  goes on.  If the file opens and some read ends the loop (end of file or an error, at
  the first read for an empty file), \<open>fileReader\<close> returns, having sent the StartOfFile
  block, then Data blocks only, then the EndOfFile block: exactly one EndOfFile block
  among the blocks sent; the handle is closed and the unit of work marked done.
\<close>

theorem fileReader_end_of_file:
  "(Open e path = None \<longrightarrow>
      (\<exists>a'. fileReader p e path a = Some a' \<and> blockQueue a' = blockQueue a
            \<and> handles a' = handles a \<and> workInProgress a' = workInProgress a - 1))
   \<and> (Open e path = Some file \<and> snd (Read file j) \<noteq> None \<longrightarrow>
      (\<exists>a' u g m datas. fileReader p e path a = Some a'
         \<and> blockQueue a' = blockQueue a
             @ [\<lparr>filePath = path, numBytes = 0, buffer = [], blockType = blockTypeStartOfFile,
                 uid = u, gid = g, mode = m\<rparr>]
             @ datas
             @ [\<lparr>filePath = path, numBytes = 0, buffer = [], blockType = blockTypeEndOfFile,
                 uid = 0, gid = 0, mode = 0\<rparr>]
         \<and> (\<forall>b\<in>set datas. blockType b = blockTypeData \<and> filePath b = path)
         \<and> length (filter (\<lambda>b. blockType b = blockTypeEndOfFile)
                     (drop (length (blockQueue a)) (blockQueue a'))) = 1
         \<and> handles a' = handles a \<and> workInProgress a' = workInProgress a - 1))"
proof (intro conjI impI)
  assume "Open e path = None"
  then show "\<exists>a'. fileReader p e path a = Some a' \<and> blockQueue a' = blockQueue a
            \<and> handles a' = handles a \<and> workInProgress a' = workInProgress a - 1"
    by (simp add: fileReader_eq blockQueue_add handles_add workInProgress_add)
next
  assume h: "Open e path = Some file \<and> snd (Read file j) \<noteq> None"
  obtain u g m where ugm: "ownerOf file = (u, g, m)" by (cases "ownerOf file")
  let ?datas = "chunks p file path 0 (endAt file)"
  let ?a' = "add (fileBlocks p file path) [] [] (fileLog p file path) (- 1) a"
  have fr: "fileReader p e path a = Some ?a'" using h by (auto simp: fileReader_eq)
  have d: "\<forall>b\<in>set ?datas. blockType b = blockTypeData \<and> filePath b = path"
    using chunks_types by blast
  then have "filter (\<lambda>b. blockType b = blockTypeEndOfFile) ?datas = []"
    by (auto simp: filter_empty_conv)
  then have one: "length (filter (\<lambda>b. blockType b = blockTypeEndOfFile)
                     (drop (length (blockQueue a)) (blockQueue ?a'))) = 1"
    by (simp add: blockQueue_add fileBlocks_def ugm metaBlock_def)
  have bq: "blockQueue ?a' = blockQueue a
             @ [\<lparr>filePath = path, numBytes = 0, buffer = [], blockType = blockTypeStartOfFile,
                 uid = u, gid = g, mode = m\<rparr>]
             @ ?datas
             @ [\<lparr>filePath = path, numBytes = 0, buffer = [], blockType = blockTypeEndOfFile,
                 uid = 0, gid = 0, mode = 0\<rparr>]"
    by (simp add: blockQueue_add fileBlocks_def ugm metaBlock_def)
  show "\<exists>a' u g m datas. fileReader p e path a = Some a'
         \<and> blockQueue a' = blockQueue a
             @ [\<lparr>filePath = path, numBytes = 0, buffer = [], blockType = blockTypeStartOfFile,
                 uid = u, gid = g, mode = m\<rparr>]
             @ datas
             @ [\<lparr>filePath = path, numBytes = 0, buffer = [], blockType = blockTypeEndOfFile,
                 uid = 0, gid = 0, mode = 0\<rparr>]
         \<and> (\<forall>b\<in>set datas. blockType b = blockTypeData \<and> filePath b = path)
         \<and> length (filter (\<lambda>b. blockType b = blockTypeEndOfFile)
                     (drop (length (blockQueue a)) (blockQueue a'))) = 1
         \<and> handles a' = handles a \<and> workInProgress a' = workInProgress a - 1"
    apply (rule exI [of _ ?a'], rule exI [of _ u], rule exI [of _ g], rule exI [of _ m],
        rule exI [of _ ?datas])
    using fr d one bq by (simp add: handles_add workInProgress_add)
qed

theorem fileReader_end_of_file_witness:
  "Open env0 ''nope'' = None
   \<and> (\<exists>a'. fileReader pkg0 env0 ''nope'' NewArchiver = Some a' \<and> blockQueue a' = []
         \<and> handles a' = [] \<and> workInProgress a' = - 1)
   \<and> Open env0 ''r/x'' = Some fileX \<and> snd (Read fileX 1) \<noteq> None
   \<and> (\<exists>a' u g m datas. fileReader pkg0 env0 ''r/x'' NewArchiver = Some a'
         \<and> blockQueue a' =
             [\<lparr>filePath = ''r/x'', numBytes = 0, buffer = [], blockType = blockTypeStartOfFile,
               uid = u, gid = g, mode = m\<rparr>]
             @ datas
             @ [\<lparr>filePath = ''r/x'', numBytes = 0, buffer = [], blockType = blockTypeEndOfFile,
                 uid = 0, gid = 0, mode = 0\<rparr>]
         \<and> length (filter (\<lambda>b. blockType b = blockTypeEndOfFile) (blockQueue a')) = 1
         \<and> handles a' = [] \<and> workInProgress a' = - 1)"
proof -
  have 1: "Open env0 ''nope'' = None" by (simp add: env0_def)
  have 2: "Open env0 ''r/x'' = Some fileX \<and> snd (Read fileX 1) \<noteq> None"
    by (simp add: env0_def fileX_def)
  from fileReader_end_of_file [of env0 "''nope''" pkg0 NewArchiver fileX 1] 1
  have a: "\<exists>a'. fileReader pkg0 env0 ''nope'' NewArchiver = Some a' \<and> blockQueue a' = []
         \<and> handles a' = [] \<and> workInProgress a' = - 1"
    by (simp add: NewArchiver_def)
  from fileReader_end_of_file [of env0 "''r/x''" pkg0 NewArchiver fileX 1] 2
  have b: "\<exists>a' u g m datas. fileReader pkg0 env0 ''r/x'' NewArchiver = Some a'
         \<and> blockQueue a' =
             [\<lparr>filePath = ''r/x'', numBytes = 0, buffer = [], blockType = blockTypeStartOfFile,
               uid = u, gid = g, mode = m\<rparr>]
             @ datas
             @ [\<lparr>filePath = ''r/x'', numBytes = 0, buffer = [], blockType = blockTypeEndOfFile,
                 uid = 0, gid = 0, mode = 0\<rparr>]
         \<and> length (filter (\<lambda>b. blockType b = blockTypeEndOfFile) (blockQueue a')) = 1
         \<and> handles a' = [] \<and> workInProgress a' = - 1"
    by (simp add: NewArchiver_def) blast
  from 1 2 a b show ?thesis by blast
qed

text \<open>
  C10.  When \<open>Stat\<close> on the open handle fails, \<open>getModeOwnership\<close> returns uid 0, gid 0
  and mode 0, and the item is not skipped: the file reader still sends the StartOfFile
  block and the directory scanner still sends the Directory block, carrying the zeros.
  (The read loop, or the listing of the directory, comes to its end.)
\<close>

theorem stat_failure_keeps_item:
  "(Stat file = None \<longrightarrow> fst (getModeOwnership file a) = (0, 0, 0))
   \<and> (Open e path = Some file \<and> Stat file = None \<and> snd (Read file j) \<noteq> None \<longrightarrow>
        (\<exists>a' rest. fileReader p e path a = Some a'
           \<and> blockQueue a' = blockQueue a
               @ \<lparr>filePath = path, numBytes = 0, buffer = [], blockType = blockTypeStartOfFile,
                  uid = 0, gid = 0, mode = 0\<rparr> # rest))
   \<and> (take 1 path \<noteq> ''/'' \<and> Open e path = Some file \<and> Stat file = None
        \<and> snd (Readdirnames file j) = Some EOF \<longrightarrow>
        (\<exists>a'. directoryScanner p e path a = Some a'
           \<and> blockQueue a' = blockQueue a
               @ [\<lparr>filePath = path, numBytes = 0, buffer = [], blockType = blockTypeDirectory,
                   uid = 0, gid = 0, mode = 0\<rparr>]))"
proof (intro conjI impI)
  assume "Stat file = None"
  then show "fst (getModeOwnership file a) = (0, 0, 0)"
    by (simp add: getModeOwnership_def)
next
  assume h: "Open e path = Some file \<and> Stat file = None \<and> snd (Read file j) \<noteq> None"
  then have o: "ownerOf file = (0, 0, 0)" by (simp add: ownerOf_def)
  from h have "fileReader p e path a = Some (add (fileBlocks p file path) [] [] (fileLog p file path) (- 1) a)"
    by (auto simp: fileReader_eq)
  then show "\<exists>a' rest. fileReader p e path a = Some a'
           \<and> blockQueue a' = blockQueue a
               @ \<lparr>filePath = path, numBytes = 0, buffer = [], blockType = blockTypeStartOfFile,
                  uid = 0, gid = 0, mode = 0\<rparr> # rest"
    by (simp add: blockQueue_add fileBlocks_def o metaBlock_def)
next
  assume h: "take 1 path \<noteq> ''/'' \<and> Open e path = Some file \<and> Stat file = None
        \<and> snd (Readdirnames file j) = Some EOF"
  then have o: "ownerOf file = (0, 0, 0)" by (simp add: ownerOf_def)
  from h have "\<exists>j. snd (Readdirnames file j) = Some EOF" by blast
  with h show "\<exists>a'. directoryScanner p e path a = Some a'
           \<and> blockQueue a' = blockQueue a
               @ [\<lparr>filePath = path, numBytes = 0, buffer = [], blockType = blockTypeDirectory,
                   uid = 0, gid = 0, mode = 0\<rparr>]"
    by (simp add: directoryScanner_eq blockQueue_add dirBlock_def o metaBlock_def)
qed

theorem stat_failure_keeps_item_witness:
  "Stat dirD = None \<and> fst (getModeOwnership dirD NewArchiver) = (0, 0, 0)
   \<and> Open env0 ''f'' = None
   \<and> take 1 ''r/d'' \<noteq> ''/'' \<and> Open env0 ''r/d'' = Some dirD \<and> snd (Readdirnames dirD 0) = Some EOF
   \<and> (\<exists>a'. directoryScanner pkg0 env0 ''r/d'' NewArchiver = Some a'
           \<and> blockQueue a' =
               [\<lparr>filePath = ''r/d'', numBytes = 0, buffer = [], blockType = blockTypeDirectory,
                 uid = 0, gid = 0, mode = 0\<rparr>])
   \<and> Open (env0\<lparr>Open := (\<lambda>s. Some (dirD\<lparr>Read := (\<lambda>k. ([], Some EOF))\<rparr>))\<rparr>) ''f''
       = Some (dirD\<lparr>Read := (\<lambda>k. ([], Some EOF))\<rparr>)
   \<and> (\<exists>a' rest. fileReader pkg0 (env0\<lparr>Open := (\<lambda>s. Some (dirD\<lparr>Read := (\<lambda>k. ([], Some EOF))\<rparr>))\<rparr>)
                    ''f'' NewArchiver = Some a'
           \<and> blockQueue a' =
               \<lparr>filePath = ''f'', numBytes = 0, buffer = [], blockType = blockTypeStartOfFile,
                 uid = 0, gid = 0, mode = 0\<rparr> # rest)"
proof -
  let ?f = "dirD\<lparr>Read := (\<lambda>k. ([], Some EOF))\<rparr>"
  let ?e = "env0\<lparr>Open := (\<lambda>s. Some ?f)\<rparr>"
  have 1: "Stat dirD = None" by (simp add: dirD_def)
  have 2: "take 1 ''r/d'' \<noteq> ''/'' \<and> Open env0 ''r/d'' = Some dirD \<and> Stat dirD = None
      \<and> snd (Readdirnames dirD 0) = Some EOF"
    by (simp add: env0_def dirD_def)
  have 3: "Open ?e ''f'' = Some ?f \<and> Stat ?f = None \<and> snd (Read ?f 0) \<noteq> None"
    by (simp add: dirD_def)
  have 4: "Open env0 ''f'' = None" by (simp add: env0_def)
  from stat_failure_keeps_item [of dirD NewArchiver env0 "''r/d''" 0 pkg0] 1 2
  have a: "fst (getModeOwnership dirD NewArchiver) = (0, 0, 0)"
    and b: "\<exists>a'. directoryScanner pkg0 env0 ''r/d'' NewArchiver = Some a'
           \<and> blockQueue a' =
               [\<lparr>filePath = ''r/d'', numBytes = 0, buffer = [], blockType = blockTypeDirectory,
                 uid = 0, gid = 0, mode = 0\<rparr>]"
    by (simp_all add: NewArchiver_def)
  from stat_failure_keeps_item [of ?f NewArchiver ?e "''f''" 0 pkg0] 3
  have c: "\<exists>a' rest. fileReader pkg0 ?e ''f'' NewArchiver = Some a'
           \<and> blockQueue a' =
               \<lparr>filePath = ''f'', numBytes = 0, buffer = [], blockType = blockTypeStartOfFile,
                 uid = 0, gid = 0, mode = 0\<rparr> # rest"
    by (simp add: NewArchiver_def)
  from 1 2 3 4 a b c show ?thesis by blast
qed

text \<open>
  C9.  Every block that \<open>fileReader\<close> or \<open>directoryScanner\<close> puts on the block queue has
  one of the four types Directory, StartOfFile, Data, EndOfFile; \<open>writeBlock\<close> does not
  reach its default case on a block of these types; and no run panics with
  "unexpected block type".
\<close>

theorem producers_send_no_checksum_type:
  "(fileReader p e path a = Some a' \<longrightarrow>
      (\<exists>bs. blockQueue a' = blockQueue a @ bs
         \<and> (\<forall>b\<in>set bs. blockType b \<in> {blockTypeDirectory, blockTypeStartOfFile,
                                         blockTypeData, blockTypeEndOfFile})))
   \<and> (directoryScanner p e path a = Some a' \<longrightarrow>
      (\<exists>bs. blockQueue a' = blockQueue a @ bs
         \<and> (\<forall>b\<in>set bs. blockType b \<in> {blockTypeDirectory, blockTypeStartOfFile,
                                         blockTypeData, blockTypeEndOfFile})))
   \<and> (blockType blk \<in> {blockTypeDirectory, blockTypeStartOfFile, blockTypeData, blockTypeEndOfFile}
        \<longrightarrow> writeBlock p e blk w \<noteq> Panic UnexpectedBlockType)
   \<and> Run p e a \<noteq> Some (Panic UnexpectedBlockType)"
proof -
  have t: "writable b \<Longrightarrow> blockType b \<in> {blockTypeDirectory, blockTypeStartOfFile,
                                         blockTypeData, blockTypeEndOfFile}" for b
    by (cases "blockType b") (simp_all add: writable_def)
  have 1: "fileReader p e path a = Some a' \<longrightarrow>
      (\<exists>bs. blockQueue a' = blockQueue a @ bs
         \<and> (\<forall>b\<in>set bs. blockType b \<in> {blockTypeDirectory, blockTypeStartOfFile,
                                         blockTypeData, blockTypeEndOfFile}))"
    using fileReader_blocks [of p e path a a'] t by blast
  have 2: "directoryScanner p e path a = Some a' \<longrightarrow>
      (\<exists>bs. blockQueue a' = blockQueue a @ bs
         \<and> (\<forall>b\<in>set bs. blockType b \<in> {blockTypeDirectory, blockTypeStartOfFile,
                                         blockTypeData, blockTypeEndOfFile}))"
    using directoryScanner_blocks [of p e path a a'] t by blast
  have 3: "blockType blk \<in> {blockTypeDirectory, blockTypeStartOfFile, blockTypeData, blockTypeEndOfFile}
        \<longrightarrow> writeBlock p e blk w \<noteq> Panic UnexpectedBlockType"
    by (cases "blockType blk")
       (auto simp: writeBlock_def Let_def split: prod.splits option.splits if_splits)
  from 1 2 3 Run_no_panic [of p e a UnexpectedBlockType] show ?thesis by blast
qed

theorem producers_send_no_checksum_type_witness:
  "(\<exists>a'. fileReader pkg0 env0 ''r/x'' NewArchiver = Some a'
      \<and> (\<exists>bs. blockQueue a' = blockQueue NewArchiver @ bs
         \<and> map blockType bs = [blockTypeStartOfFile, blockTypeData, blockTypeEndOfFile]))
   \<and> (\<exists>a'. directoryScanner pkg0 env0 ''r'' NewArchiver = Some a'
      \<and> (\<exists>bs. blockQueue a' = blockQueue NewArchiver @ bs \<and> map blockType bs = [blockTypeDirectory]))
   \<and> blockType \<lparr>filePath = ''r/x'', numBytes = 0, buffer = [], blockType = blockTypeEndOfFile,
                 uid = 0, gid = 0, mode = 0\<rparr>
        \<in> {blockTypeDirectory, blockTypeStartOfFile, blockTypeData, blockTypeEndOfFile}
   \<and> writeBlock pkg0 env0 \<lparr>filePath = ''r/x'', numBytes = 0, buffer = [],
                  blockType = blockTypeEndOfFile, uid = 0, gid = 0, mode = 0\<rparr>
         \<lparr>written = [], crc = 0\<rparr> \<noteq> Panic UnexpectedBlockType
   \<and> Run pkg0 env0 (AddDir ''r'' NewArchiver) \<noteq> Some (Panic UnexpectedBlockType)"
proof -
  let ?b = "\<lparr>filePath = ''r/x'', numBytes = 0, buffer = [], blockType = blockTypeEndOfFile,
                 uid = 0, gid = 0, mode = 0\<rparr>"
  obtain a1 where a1: "fileReader pkg0 env0 ''r/x'' NewArchiver = Some a1"
    and q1: "map blockType (blockQueue a1) = [blockTypeStartOfFile, blockTypeData, blockTypeEndOfFile]"
    by (simp add: fileReader_def readLoop.simps pkg0_def env0_def fileX_def
      NewArchiver_def getModeOwnership_def send_def Done_def Close_def Warning_def)
  obtain a2 where a2: "directoryScanner pkg0 env0 ''r'' NewArchiver = Some a2"
    and q2: "map blockType (blockQueue a2) = [blockTypeDirectory]"
    by (simp add: directoryScanner_def readdirnames.simps pkg0_def env0_def dirR_def
      NewArchiver_def getModeOwnership_def send_def Done_def Close_def Warning_def scanEntry_def
      ModeDir_def ModeSymlink_def)
  have t: "blockType ?b \<in> {blockTypeDirectory, blockTypeStartOfFile, blockTypeData, blockTypeEndOfFile}"
    by simp
  from producers_send_no_checksum_type [of pkg0 env0 "''r/x''" NewArchiver a1 ?b "\<lparr>written = [], crc = 0\<rparr>"] a1 q1
  have A: "\<exists>a'. fileReader pkg0 env0 ''r/x'' NewArchiver = Some a'
      \<and> (\<exists>bs. blockQueue a' = blockQueue NewArchiver @ bs
         \<and> map blockType bs = [blockTypeStartOfFile, blockTypeData, blockTypeEndOfFile])"
    by (auto simp: NewArchiver_def)
  from producers_send_no_checksum_type [of pkg0 env0 "''r''" NewArchiver a2 ?b "\<lparr>written = [], crc = 0\<rparr>"] a2 q2
  have B: "\<exists>a'. directoryScanner pkg0 env0 ''r'' NewArchiver = Some a'
      \<and> (\<exists>bs. blockQueue a' = blockQueue NewArchiver @ bs \<and> map blockType bs = [blockTypeDirectory])"
    by (auto simp: NewArchiver_def)
  from producers_send_no_checksum_type [of pkg0 env0 "''r''" "AddDir ''r'' NewArchiver" a2 ?b "\<lparr>written = [], crc = 0\<rparr>"] t
  have C: "writeBlock pkg0 env0 ?b \<lparr>written = [], crc = 0\<rparr> \<noteq> Panic UnexpectedBlockType"
    and D: "Run pkg0 env0 (AddDir ''r'' NewArchiver) \<noteq> Some (Panic UnexpectedBlockType)"
    by blast+
  from A B C D t show ?thesis by blast
qed

subsection \<open>Decoding what was encoded\<close>

lemma length_bigEndian: "length (bigEndian k n) = k"
  by (induction k arbitrary: n) simp_all

lemma fromBigEndian_snoc: "fromBigEndian (bs @ [b]) = 256 * fromBigEndian bs + unat b"
  by (simp add: fromBigEndian_def)

lemma fromBigEndian_bigEndian: "n < 256 ^ k \<Longrightarrow> fromBigEndian (bigEndian k n) = n"
proof (induction k arbitrary: n)
  case 0
  then show ?case by (simp add: fromBigEndian_def)
next
  case (Suc k)
  then have "n div 256 < 256 ^ k" by (simp add: less_mult_imp_div_less mult.commute)
  then have "fromBigEndian (bigEndian k (n div 256)) = n div 256" by (rule Suc.IH)
  moreover have "unat (word_of_nat (n mod 256) :: byte) = n mod 256"
    by (simp add: unat_of_nat)
  ultimately show ?case by (simp add: fromBigEndian_snoc)
qed

lemma stringOf_bytesOf: "stringOf (bytesOf s) = s"
proof -
  have "char_of (unat (word_of_nat (of_char c) :: byte)) = c" for c :: char
    by (simp add: unat_of_nat)
  then show ?thesis by (simp add: stringOf_def bytesOf_def comp_def map_idI)
qed

lemma take_bigEndian: "take k (bigEndian k n @ xs) = bigEndian k n"
  and drop_bigEndian: "drop k (bigEndian k n @ xs) = xs"
  by (simp_all add: length_bigEndian)

lemma word32_roundtrip: "word_of_nat (fromBigEndian (bigEndian 4 (unat (u :: 32 word)))) = u"
proof -
  have "unat u < 2 ^ 32" using unsigned_less [of u, where ?'a = nat] by simp
  then have "unat u < 256 ^ 4" by simp
  then show ?thesis by (simp add: fromBigEndian_bigEndian del: bigEndian.simps take_append drop_append)
qed

lemma word64_roundtrip: "word_of_nat (fromBigEndian (bigEndian 8 (unat (u :: 64 word)))) = u"
proof -
  have "unat u < 2 ^ 64" using unsigned_less [of u, where ?'a = nat] by simp
  then have "unat u < 256 ^ 8" by simp
  then show ?thesis by (simp add: fromBigEndian_bigEndian del: bigEndian.simps take_append drop_append)
qed

lemma len16: "n < 65536 \<Longrightarrow> fromBigEndian (bigEndian 2 n) = n"
  by (rule fromBigEndian_bigEndian) simp

text \<open>The head of every block: path length, path, type byte.\<close>
lemma decode_head:
  fixes t :: byte and rest :: "byte list" and path :: string
  assumes "length path < 65536"
  defines "bs \<equiv> bigEndian 2 (length path) @ bytesOf path @ [t] @ rest"
  shows "\<not> length bs < 3" "fromBigEndian (take 2 bs) = length path"
    "\<not> length bs < 3 + length path"
    "stringOf (take (length path) (drop 2 bs)) = path"
    "bs ! (2 + length path) = t" "drop (3 + length path) bs = rest"
proof -
  show "\<not> length bs < 3" by (simp add: bs_def length_bigEndian)
  show "fromBigEndian (take 2 bs) = length path"
    using assms(1) by (simp add: bs_def take_bigEndian len16 del: bigEndian.simps take_append)
  show "\<not> length bs < 3 + length path" by (simp add: bs_def length_bigEndian length_bytesOf)
  show "stringOf (take (length path) (drop 2 bs)) = path"
    by (simp add: bs_def drop_bigEndian length_bytesOf stringOf_bytesOf del: bigEndian.simps drop_append)
  have "bs = (bigEndian 2 (length path) @ bytesOf path) @ t # rest" by (simp add: bs_def)
  moreover have "length (bigEndian 2 (length path) @ bytesOf path) = 2 + length path"
    by (simp add: length_bigEndian length_bytesOf)
  ultimately show "bs ! (2 + length path) = t" "drop (3 + length path) bs = rest"
    by (simp_all add: nth_append del: bigEndian.simps append_assoc)
qed

lemma decodeBlock_wire:
  assumes inj: "inj (typeByte p)" and fits: "fits it"
  shows "decodeBlock p (wire p it @ rest) = Some (it, rest)"
proof -
  have ne: "typeByte p x = typeByte p y \<longleftrightarrow> x = y" for x y
    using inj by (auto dest: injD)
  show ?thesis
  proof (cases it)
    case (Directory path u g m)
    let ?pay = "bigEndian 4 (unat u) @ bigEndian 4 (unat g) @ bigEndian 4 (unat m) @ rest"
    have w: "wire p it @ rest = bigEndian 2 (length path) @ bytesOf path @ [typeByte p blockTypeDirectory] @ ?pay"
      using Directory by simp
    from fits Directory have l: "length path < 65536" by simp
    note h = decode_head [OF l, of "typeByte p blockTypeDirectory" ?pay]
    show ?thesis unfolding w decodeBlock_def
      by (simp only: h Let_def if_False if_True simp_thms)
         (simp add: length_bigEndian take_bigEndian drop_bigEndian word32_roundtrip Directory
           del: bigEndian.simps)
  next
    case (StartOfFile path u g m)
    let ?pay = "bigEndian 4 (unat u) @ bigEndian 4 (unat g) @ bigEndian 4 (unat m) @ rest"
    have w: "wire p it @ rest = bigEndian 2 (length path) @ bytesOf path @ [typeByte p blockTypeStartOfFile] @ ?pay"
      using StartOfFile by simp
    from fits StartOfFile have l: "length path < 65536" by simp
    note h = decode_head [OF l, of "typeByte p blockTypeStartOfFile" ?pay]
    show ?thesis unfolding w decodeBlock_def
      by (simp only: h Let_def if_False if_True simp_thms)
         (simp add: ne length_bigEndian take_bigEndian drop_bigEndian word32_roundtrip StartOfFile
           del: bigEndian.simps)
  next
    case (Data path d)
    let ?pay = "bigEndian 2 (length d) @ d @ rest"
    have w: "wire p it @ rest = bigEndian 2 (length path) @ bytesOf path @ [typeByte p blockTypeData] @ ?pay"
      using Data by simp
    from fits Data have l: "length path < 65536" and ld: "length d < 65536" by simp_all
    note h = decode_head [OF l, of "typeByte p blockTypeData" ?pay]
    show ?thesis unfolding w decodeBlock_def
      by (simp only: h Let_def if_False if_True simp_thms)
         (simp add: ne length_bigEndian take_bigEndian drop_bigEndian len16 [OF ld] Data
           del: bigEndian.simps)
  next
    case (EndOfFile path)
    have w: "wire p it @ rest = bigEndian 2 (length path) @ bytesOf path @ [typeByte p blockTypeEndOfFile] @ rest"
      using EndOfFile by simp
    from fits EndOfFile have l: "length path < 65536" by simp
    note h = decode_head [OF l, of "typeByte p blockTypeEndOfFile" rest]
    show ?thesis unfolding w decodeBlock_def
      by (simp only: h Let_def if_False if_True simp_thms)
         (simp add: ne EndOfFile del: bigEndian.simps)
  next
    case (Checksum v)
    let ?pay = "bigEndian 8 (unat v) @ rest"
    have w: "wire p it @ rest = bigEndian 2 (length ([]::string)) @ bytesOf [] @ [typeByte p blockTypeChecksum] @ ?pay"
      using Checksum by (simp add: bytesOf_def)
    have l: "length ([]::string) < 65536" by simp
    note h = decode_head [OF l, of "typeByte p blockTypeChecksum" ?pay]
    show ?thesis unfolding w decodeBlock_def
      by (simp only: h Let_def if_False if_True simp_thms)
         (simp add: ne length_bigEndian take_bigEndian drop_bigEndian word64_roundtrip Checksum
           del: bigEndian.simps)
  qed
qed

lemma wire_nonempty: "wire p it \<noteq> []"
  by (cases it) simp_all

lemma decodeBlocks_wire:
  assumes inj: "inj (typeByte p)"
  shows "\<forall>it\<in>set items. fits it \<Longrightarrow> length items \<le> fuel
    \<Longrightarrow> decodeBlocks p fuel (concat (map (wire p) items)) = Some items"
proof (induction items arbitrary: fuel)
  case Nil
  then show ?case by (cases fuel) simp_all
next
  case (Cons it items)
  then obtain f where f: "fuel = Suc f" by (cases fuel) auto
  have "decodeBlock p (wire p it @ concat (map (wire p) items)) = Some (it, concat (map (wire p) items))"
    using Cons.prems by (intro decodeBlock_wire [OF inj]) simp
  moreover have "decodeBlocks p f (concat (map (wire p) items)) = Some items"
    using Cons.prems f by (intro Cons.IH) auto
  ultimately show ?case using f by (simp add: wire_nonempty)
qed

lemma length_wire: "3 \<le> length (wire p it)"
  by (cases it) (simp_all add: length_bigEndian del: bigEndian.simps take_append drop_append)

lemma length_concat_wire: "length items \<le> length (concat (map (wire p) items))"
proof (induction items)
  case (Cons it items)
  then show ?case using length_wire [of p it] by simp
qed simp

lemma decodeStream_stream:
  assumes "inj (typeByte p)" "\<forall>it\<in>set items. fits it"
  shows "decodeStream p (stream p items) = Some items"
  using decodeBlocks_wire [OF assms, of "length (stream p items)"] length_concat_wire [of items p]
  by (simp add: decodeStream_def stream_def)

lemma wire_logical:
  assumes "writable b"
  shows "header p b @ payload b
    = putUint16 (word_of_nat (length (filePath b))) @ drop 2 (wire p (logical b))"
  using assms
  by (cases "blockType b")
     (simp_all add: writable_def header_def payload_def logical_def putUint16_bigEndian
        putUint32_bigEndian length_bigEndian del: bigEndian.simps)

lemma wire_logical_short:
  assumes "writable b" "length (filePath b) < 65536"
  shows "header p b @ payload b = wire p (logical b)"
proof -
  have "unat (word_of_nat (length (filePath b)) :: 16 word) = length (filePath b)"
    using assms(2) by (simp add: unat_of_nat)
  then have "putUint16 (word_of_nat (length (filePath b))) = bigEndian 2 (length (filePath b))"
    by (simp add: putUint16_bigEndian del: bigEndian.simps)
  moreover have "wire p (logical b) = bigEndian 2 (length (filePath b)) @ drop 2 (wire p (logical b))"
    using assms(1)
    by (cases "blockType b")
       (simp_all add: writable_def logical_def length_bigEndian del: bigEndian.simps)
  ultimately show ?thesis using wire_logical [OF assms(1), of p] by simp
qed

lemma fits_logical:
  assumes "writable b" "length (filePath b) < 65536"
  shows "fits (logical b)"
proof (cases "blockType b")
  case blockTypeData
  have "unat (numBytes b) < 65536" using unsigned_less [of "numBytes b", where ?'a = nat] by simp
  with assms blockTypeData show ?thesis by (simp add: logical_def writable_def)
qed (use assms in \<open>simp_all add: logical_def\<close>)

lemma not_isChecksum_logical: "blockType b \<noteq> blockTypeChecksum \<Longrightarrow> \<not> isChecksum (logical b)"
  by (cases "blockType b") (simp_all add: logical_def)

lemma crc64_append: "update (crc64 a) b = crc64 (a @ b)"
  by (simp add: crc64_def update_append)

lemma writeChecksumBlock_wire:
  assumes "writeChecksumBlock p e w = (None, w')" "crc w = crc64 sofar"
  shows "written w' = written w @ wire p (Checksum (crc64 (sofar @ checksumPrefix p)))"
    and "crc w' = crc64 (sofar @ wire p (Checksum (crc64 (sofar @ checksumPrefix p))))"
proof -
  have p0: "putUint16 0 = bigEndian 2 0" by (simp add: putUint16_bigEndian del: bigEndian.simps)
  note r = writeChecksumBlock_None [OF assms(1)]
  show "written w' = written w @ wire p (Checksum (crc64 (sofar @ checksumPrefix p)))"
    by (subst r) (simp add: assms(2) crc64_append checksumPrefix_def p0 putUint64_bigEndian
        del: bigEndian.simps)
  show "crc w' = crc64 (sofar @ wire p (Checksum (crc64 (sofar @ checksumPrefix p))))"
    by (subst r) (simp add: assms(2) crc64_append checksumPrefix_def p0 putUint64_bigEndian
        del: bigEndian.simps)
qed

lemma writeBlocks_laid:
  "writeBlocks p e bs n w = Ret (None, w') \<Longrightarrow> crc w = crc64 sofar
   \<Longrightarrow> \<forall>b\<in>set bs. length (filePath b) < 65536
   \<Longrightarrow> written w' = written w @ concat (map (wire p) (laid p sofar n bs))
       \<and> (\<forall>b\<in>set bs. writable b)"
proof (induction bs arbitrary: n w sofar)
  case Nil
  then show ?case using writeChecksumBlock_wire(1) [of p e w w' sofar] by simp
next
  case (Cons b bs)
  from Cons.prems(1) obtain err w1 where wb: "writeBlock p e b w = Ret (err, w1)"
    by (auto split: res.splits)
  have err: "err = None"
    using Cons.prems(1) wb by (cases err) (auto simp: Let_def split: if_splits)
  note r = writeBlock_Ret_None [OF wb [unfolded err]]
  from r have wr: "writable b" by (simp add: writable_def)
  from Cons.prems(3) have short: "length (filePath b) < 65536" by simp
  have w1: "written w1 = written w @ wire p (logical b)"
    and c1: "crc w1 = crc64 (sofar @ wire p (logical b))"
    using r wire_logical_short [OF wr short, of p] Cons.prems(2) by (simp_all add: crc64_append)
  show ?case
  proof (cases "Suc n mod 1000 = 0")
    case True
    let ?c = "Checksum (crc64 ((sofar @ wire p (logical b)) @ checksumPrefix p))"
    from Cons.prems(1) wb err True obtain err2 w2
      where cs: "writeChecksumBlock p e w1 = (err2, w2)"
        and rest: "(if err2 \<noteq> None then Ret (err2, w2) else writeBlocks p e bs (Suc n) w2) = Ret (None, w')"
      by (cases "writeChecksumBlock p e w1") (auto simp: Let_def)
    from rest have e2: "err2 = None" and rest': "writeBlocks p e bs (Suc n) w2 = Ret (None, w')"
      by (auto split: if_splits)
    from writeChecksumBlock_wire [OF cs [unfolded e2] c1]
    have w2: "written w2 = written w1 @ wire p ?c"
      and c2: "crc w2 = crc64 ((sofar @ wire p (logical b)) @ wire p ?c)" by simp_all
    from Cons.IH [OF rest' c2] Cons.prems(3)
    have "written w' = written w2 @ concat (map (wire p) (laid p ((sofar @ wire p (logical b)) @ wire p ?c) (Suc n) bs))"
      and "\<forall>b\<in>set bs. writable b" by simp_all
    then show ?thesis using True w1 w2 wr by simp
  next
    case False
    from Cons.prems(1) wb err False
    have rest': "writeBlocks p e bs (Suc n) w1 = Ret (None, w')" by (simp add: Let_def)
    from Cons.IH [OF rest' c1] Cons.prems(3)
    have "written w' = written w1 @ concat (map (wire p) (laid p (sofar @ wire p (logical b)) (Suc n) bs))"
      and "\<forall>b\<in>set bs. writable b" by simp_all
    then show ?thesis using False w1 wr by simp
  qed
qed

lemma archiveWriter_laid:
  assumes "archiveWriter p e out blocks = Ret (None, w)"
    and "\<forall>b\<in>set blocks. length (filePath b) < 65536"
  shows "written w = out @ stream p (laid p (fastArchiverHeader p) 0 blocks)"
    and "\<forall>b\<in>set blocks. writable b"
proof -
  from assms(1) obtain w0 where h: "Write e (fastArchiverHeader p) \<lparr>written = out, crc = 0\<rparr> = (None, w0)"
    and wb: "writeBlocks p e blocks 0 w0 = Ret (None, w)"
    by (auto simp: archiveWriter_def split: prod.splits option.splits)
  from h have w0: "written w0 = out @ fastArchiverHeader p" "crc w0 = crc64 (fastArchiverHeader p)"
    by (auto simp: Write_def crc64_def split: if_splits)
  from writeBlocks_laid [OF wb w0(2) assms(2)] w0(1)
  show "written w = out @ stream p (laid p (fastArchiverHeader p) 0 blocks)"
    and "\<forall>b\<in>set blocks. writable b"
    by (simp_all add: stream_def)
qed

lemma laid_fits:
  "\<forall>b\<in>set bs. writable b \<and> length (filePath b) < 65536 \<Longrightarrow> \<forall>it\<in>set (laid p sofar n bs). fits it"
  by (induction bs arbitrary: sofar n) (simp_all add: fits_logical)

lemma laid_checksum_value:
  "\<forall>b\<in>set bs. blockType b \<noteq> blockTypeChecksum \<Longrightarrow> i < length (laid p sofar n bs)
   \<Longrightarrow> laid p sofar n bs ! i = Checksum v
   \<Longrightarrow> v = crc64 (sofar @ concat (map (wire p) (take i (laid p sofar n bs))) @ checksumPrefix p)"
proof (induction bs arbitrary: sofar n i)
  case Nil
  then show ?case by simp
next
  case (Cons b bs)
  have nb: "logical b \<noteq> Checksum v" using Cons.prems(1) not_isChecksum_logical [of b] by auto
  show ?case
  proof (cases "Suc n mod 1000 = 0")
    case True
    let ?c = "Checksum (crc64 (sofar @ wire p (logical b) @ checksumPrefix p))"
    let ?s = "sofar @ wire p (logical b) @ wire p ?c"
    show ?thesis
    proof (cases i)
      case 0
      with Cons.prems(3) nb True show ?thesis by simp
    next
      case (Suc j)
      show ?thesis
      proof (cases j)
        case 0
        with Suc Cons.prems(3) True show ?thesis by simp
      next
        case (Suc k)
        with \<open>i = Suc j\<close> Cons.prems True have "k < length (laid p ?s (Suc n) bs)"
          and "laid p ?s (Suc n) bs ! k = Checksum v" by simp_all
        from Cons.IH [OF _ this] Cons.prems(1)
        have "v = crc64 (?s @ concat (map (wire p) (take k (laid p ?s (Suc n) bs))) @ checksumPrefix p)"
          by simp
        with Suc \<open>i = Suc j\<close> True show ?thesis by simp
      qed
    qed
  next
    case False
    let ?s = "sofar @ wire p (logical b)"
    show ?thesis
    proof (cases i)
      case 0
      with Cons.prems(3) nb False show ?thesis by simp
    next
      case (Suc j)
      with Cons.prems False have "j < length (laid p ?s (Suc n) bs)"
        and "laid p ?s (Suc n) bs ! j = Checksum v" by simp_all
      from Cons.IH [OF _ this] Cons.prems(1)
      have "v = crc64 (?s @ concat (map (wire p) (take j (laid p ?s (Suc n) bs))) @ checksumPrefix p)"
        by simp
      with Suc False show ?thesis by simp
    qed
  qed
qed

lemma laid_blocks:
  "\<forall>b\<in>set bs. blockType b \<noteq> blockTypeChecksum
   \<Longrightarrow> filter (\<lambda>it. \<not> isChecksum it) (laid p sofar n bs) = map logical bs"
  by (induction bs arbitrary: sofar n) (simp_all add: not_isChecksum_logical)

lemma laid_nonempty: "laid p sofar n bs \<noteq> []"
  by (cases bs) simp_all

lemma laid_last: "isChecksum (last (laid p sofar n bs))"
  by (induction bs arbitrary: sofar n) (simp_all add: laid_nonempty)

lemma laid_gaps:
  "\<forall>b\<in>set bs. blockType b \<noteq> blockTypeChecksum
   \<Longrightarrow> gaps (n mod 1000) (laid p sofar n bs)
       = replicate ((n mod 1000 + length bs) div 1000) 1000 @ [(n + length bs) mod 1000]"
proof (induction bs arbitrary: sofar n)
  case Nil
  then show ?case by simp
next
  case (Cons b bs)
  have nb: "\<not> isChecksum (logical b)" using Cons.prems not_isChecksum_logical [of b] by simp
  show ?case
  proof (cases "Suc n mod 1000 = 0")
    case True
    then have r: "n mod 1000 = 999" by (simp add: mod_Suc split: if_splits)
    let ?s = "sofar @ wire p (logical b)
        @ wire p (Checksum (crc64 (sofar @ wire p (logical b) @ checksumPrefix p)))"
    have "gaps (Suc n mod 1000) (laid p ?s (Suc n) bs)
       = replicate ((Suc n mod 1000 + length bs) div 1000) 1000 @ [(Suc n + length bs) mod 1000]"
      using Cons.prems by (intro Cons.IH) simp
    then have "gaps 0 (laid p ?s (Suc n) bs)
       = replicate (length bs div 1000) 1000 @ [(Suc n + length bs) mod 1000]"
      using True by simp
    moreover have "(999 + Suc (length bs)) div 1000 = Suc (length bs div 1000)"
    proof -
      have "999 + Suc (length bs) = length bs + 1000" by simp
      then show ?thesis by (simp only: div_add_self2)
    qed
    ultimately show ?thesis using True nb r by simp
  next
    case False
    then have r: "Suc n mod 1000 = Suc (n mod 1000)" by (simp add: mod_Suc split: if_splits)
    have "gaps (Suc n mod 1000) (laid p (sofar @ wire p (logical b)) (Suc n) bs)
       = replicate ((Suc n mod 1000 + length bs) div 1000) 1000 @ [(Suc n + length bs) mod 1000]"
      using Cons.prems by (intro Cons.IH) simp
    then show ?thesis using False nb r by simp
  qed
qed

subsection \<open>The writer\<close>

lemma Write_accepts: "\<forall>h q. accepts e h q \<Longrightarrow> \<exists>w'. Write e q w = (None, w')"
  by (simp add: Write_def)

lemma writeChecksumBlock_accepts:
  "\<forall>h q. accepts e h q \<Longrightarrow> \<exists>w'. writeChecksumBlock p e w = (None, w')"
  by (simp add: writeChecksumBlock_def Write_def ifNil_def Let_def)

lemma writeBlock_accepts:
  "\<forall>h q. accepts e h q \<Longrightarrow> writable b \<Longrightarrow> \<exists>w'. writeBlock p e b w = Ret (None, w')"
  by (cases "blockType b")
     (simp_all add: writeBlock_def Write_def ifNil_def Let_def writable_def)

lemma writeBlocks_accepts:
  "\<forall>h q. accepts e h q \<Longrightarrow> \<forall>b\<in>set bs. writable b
   \<Longrightarrow> \<exists>w'. writeBlocks p e bs n w = Ret (None, w')"
proof (induction bs arbitrary: n w)
  case Nil
  then show ?case using writeChecksumBlock_accepts [of e p w] by simp
next
  case (Cons b bs)
  then obtain w1 where w1: "writeBlock p e b w = Ret (None, w1)"
    using writeBlock_accepts [of e b p w] by auto
  obtain w2 where w2: "writeChecksumBlock p e w1 = (None, w2)"
    using writeChecksumBlock_accepts [OF Cons.prems(1), of p w1] by auto
  from Cons.IH [OF Cons.prems(1)] Cons.prems(2)
  have "\<exists>w'. writeBlocks p e bs (Suc n) w1 = Ret (None, w')"
    and "\<exists>w'. writeBlocks p e bs (Suc n) w2 = Ret (None, w')" by simp_all
  with w1 w2 show ?case by (simp add: Let_def)
qed

lemma archiveWriter_accepts:
  assumes "\<forall>h q. accepts e h q" "\<forall>b\<in>set bs. writable b"
  shows "\<exists>w. archiveWriter p e out bs = Ret (None, w)"
proof -
  obtain w0 where "Write e (fastArchiverHeader p) \<lparr>written = out, crc = 0\<rparr> = (None, w0)"
    using Write_accepts [OF assms(1)] by blast
  with writeBlocks_accepts [OF assms, of p 0 w0] show ?thesis
    by (simp add: archiveWriter_def)
qed

lemma inj_typeByte_pkg0: "inj (typeByte pkg0)"
proof (rule injI)
  fix x y assume "typeByte pkg0 x = typeByte pkg0 y"
  then show "x = y" by (cases x; cases y) (simp_all add: pkg0_def)
qed

text \<open>
  C3.  When the writer finishes without a write error, what it wrote is the header and a
  sequence of blocks that decodes to exactly that sequence, and every checksum block of
  it, at any position \<open>i\<close>, stores the CRC-64 of all bytes of the stream before the stored
  value: the header, the \<open>i\<close> blocks before it (earlier checksum blocks among them) and its
  own zero path length and type byte.  (The type bytes of the five block types differ and
  the paths are shorter than 65536 bytes, so that the stream can be decoded.)
\<close>

theorem checksum_is_crc_of_all_bytes_before:
  "inj (typeByte p) \<and> (\<forall>b\<in>set blocks. length (filePath b) < 65536)
     \<and> archiveWriter p e out blocks = Ret (None, w) \<longrightarrow>
    (\<exists>items. written w = out @ stream p items \<and> decodeStream p (stream p items) = Some items
       \<and> (\<forall>i v. i < length items \<and> items ! i = Checksum v \<longrightarrow>
             v = crc64 (stream p (take i items) @ bigEndian 2 0 @ [typeByte p blockTypeChecksum])))"
proof
  assume h: "inj (typeByte p) \<and> (\<forall>b\<in>set blocks. length (filePath b) < 65536)
     \<and> archiveWriter p e out blocks = Ret (None, w)"
  let ?items = "laid p (fastArchiverHeader p) 0 blocks"
  from h have inj: "inj (typeByte p)" and short: "\<forall>b\<in>set blocks. length (filePath b) < 65536"
    and aw: "archiveWriter p e out blocks = Ret (None, w)" by simp_all
  note l = archiveWriter_laid [OF aw short]
  from l(2) have nc: "\<forall>b\<in>set blocks. blockType b \<noteq> blockTypeChecksum" by (simp add: writable_def)
  from l(2) short have "\<forall>it\<in>set ?items. fits it" by (intro laid_fits) simp
  then have dec: "decodeStream p (stream p ?items) = Some ?items"
    by (rule decodeStream_stream [OF inj])
  have "\<forall>i v. i < length ?items \<and> ?items ! i = Checksum v \<longrightarrow>
      v = crc64 (stream p (take i ?items) @ bigEndian 2 0 @ [typeByte p blockTypeChecksum])"
    using laid_checksum_value [OF nc, of _ p "fastArchiverHeader p" 0]
    by (simp add: stream_def checksumPrefix_def del: bigEndian.simps)
  with l(1) dec show "\<exists>items. written w = out @ stream p items
       \<and> decodeStream p (stream p items) = Some items
       \<and> (\<forall>i v. i < length items \<and> items ! i = Checksum v \<longrightarrow>
             v = crc64 (stream p (take i items) @ bigEndian 2 0 @ [typeByte p blockTypeChecksum]))"
    by blast
qed

theorem checksum_is_crc_of_all_bytes_before_witness:
  "inj (typeByte pkg0)
   \<and> length (filePath \<lparr>filePath = ''r/x'', numBytes = 0, buffer = [], blockType = blockTypeEndOfFile,
                       uid = 0, gid = 0, mode = 0\<rparr>) < 65536
   \<and> (\<exists>w. archiveWriter pkg0 env0 []
             [\<lparr>filePath = ''r/x'', numBytes = 0, buffer = [], blockType = blockTypeEndOfFile,
               uid = 0, gid = 0, mode = 0\<rparr>] = Ret (None, w)
        \<and> (\<exists>items. written w = stream pkg0 items \<and> decodeStream pkg0 (stream pkg0 items) = Some items
             \<and> length items = 2 \<and> items ! 0 = EndOfFile ''r/x''
             \<and> items ! 1 = Checksum (crc64 ([0x46, 0x41] @ [0, 3, 114, 47, 120, 2] @ [0, 0, 4]))))"
proof -
  let ?b = "\<lparr>filePath = ''r/x'', numBytes = 0, buffer = [], blockType = blockTypeEndOfFile,
                       uid = 0, gid = 0, mode = 0\<rparr>"
  have acc: "\<forall>h q. accepts env0 h q" by (simp add: env0_def)
  have "\<forall>b\<in>set [?b]. writable b" by (simp add: writable_def)
  from archiveWriter_accepts [OF acc this, of pkg0 "[]"]
  obtain w where w: "archiveWriter pkg0 env0 [] [?b] = Ret (None, w)" by blast
  have s: "length (filePath ?b) < 65536" by simp
  from checksum_is_crc_of_all_bytes_before [of pkg0 "[?b]" env0 "[]" w] inj_typeByte_pkg0 w
  obtain items where i: "written w = stream pkg0 items"
    "decodeStream pkg0 (stream pkg0 items) = Some items"
    by auto
  from archiveWriter_laid(1) [OF w] i(1)
  have "stream pkg0 items = stream pkg0 (laid pkg0 (fastArchiverHeader pkg0) 0 [?b])" by simp
  then have "decodeStream pkg0 (stream pkg0 items)
      = decodeStream pkg0 (stream pkg0 (laid pkg0 (fastArchiverHeader pkg0) 0 [?b]))" by simp
  moreover have "\<forall>it\<in>set (laid pkg0 (fastArchiverHeader pkg0) 0 [?b]). fits it"
    by (simp add: logical_def)
  ultimately have "items = laid pkg0 (fastArchiverHeader pkg0) 0 [?b]"
    using i(2) decodeStream_stream [OF inj_typeByte_pkg0] by simp
  then have "length items = 2 \<and> items ! 0 = EndOfFile ''r/x''
       \<and> items ! 1 = Checksum (crc64 ([0x46, 0x41] @ [0, 3, 114, 47, 120, 2] @ [0, 0, 4]))"
    by (simp add: logical_def checksumPrefix_def pkg0_def bigEndian_2 bytesOf_def
        del: bigEndian.simps)
  with i w inj_typeByte_pkg0 s show ?thesis by blast
qed

text \<open>
  C4.  When the writer finishes without a write error, the stream decodes to the blocks of
  the queue, in order, with checksum blocks between them: the numbers of blocks before
  each checksum block, since the one before, are 1000 for all but the last checksum block
  and the remainder of the block count modulo 1000 for the last one; the stream is not
  empty and ends with a checksum block.  With no block at all the stream is the header
  and one checksum block.
\<close>

theorem checksum_every_1000_blocks_and_at_end:
  "inj (typeByte p) \<and> (\<forall>b\<in>set blocks. length (filePath b) < 65536)
     \<and> archiveWriter p e out blocks = Ret (None, w) \<longrightarrow>
    (\<exists>items. written w = out @ stream p items \<and> decodeStream p (stream p items) = Some items
       \<and> filter (\<lambda>it. \<not> isChecksum it) items = map logical blocks
       \<and> gaps 0 items = replicate (length blocks div 1000) 1000 @ [length blocks mod 1000]
       \<and> items \<noteq> [] \<and> isChecksum (last items))"
proof
  assume h: "inj (typeByte p) \<and> (\<forall>b\<in>set blocks. length (filePath b) < 65536)
     \<and> archiveWriter p e out blocks = Ret (None, w)"
  let ?items = "laid p (fastArchiverHeader p) 0 blocks"
  from h have inj: "inj (typeByte p)" and short: "\<forall>b\<in>set blocks. length (filePath b) < 65536"
    and aw: "archiveWriter p e out blocks = Ret (None, w)" by simp_all
  note l = archiveWriter_laid [OF aw short]
  from l(2) have nc: "\<forall>b\<in>set blocks. blockType b \<noteq> blockTypeChecksum" by (simp add: writable_def)
  from l(2) short have "\<forall>it\<in>set ?items. fits it" by (intro laid_fits) simp
  then have dec: "decodeStream p (stream p ?items) = Some ?items"
    by (rule decodeStream_stream [OF inj])
  have g: "gaps 0 ?items = replicate (length blocks div 1000) 1000 @ [length blocks mod 1000]"
    using laid_gaps [OF nc, of 0 p "fastArchiverHeader p"] by simp
  from l(1) dec g laid_blocks [OF nc, of p "fastArchiverHeader p" 0]
    laid_nonempty [of p "fastArchiverHeader p" 0 blocks]
    laid_last [of p "fastArchiverHeader p" 0 blocks]
  show "\<exists>items. written w = out @ stream p items \<and> decodeStream p (stream p items) = Some items
       \<and> filter (\<lambda>it. \<not> isChecksum it) items = map logical blocks
       \<and> gaps 0 items = replicate (length blocks div 1000) 1000 @ [length blocks mod 1000]
       \<and> items \<noteq> [] \<and> isChecksum (last items)"
    by blast
qed

theorem checksum_every_1000_blocks_and_at_end_witness:
  "inj (typeByte pkg0)
   \<and> length (filePath \<lparr>filePath = ''r/x'', numBytes = 0, buffer = [], blockType = blockTypeEndOfFile,
                       uid = 0, gid = 0, mode = 0\<rparr>) < 65536
   \<and> (\<exists>w. archiveWriter pkg0 env0 []
             (replicate 1000 \<lparr>filePath = ''r/x'', numBytes = 0, buffer = [],
                blockType = blockTypeEndOfFile, uid = 0, gid = 0, mode = 0\<rparr>) = Ret (None, w)
        \<and> (\<exists>items. written w = stream pkg0 items \<and> decodeStream pkg0 (stream pkg0 items) = Some items
             \<and> filter (\<lambda>it. \<not> isChecksum it) items = replicate 1000 (EndOfFile ''r/x'')
             \<and> gaps 0 items = [1000, 0] \<and> items \<noteq> [] \<and> isChecksum (last items)))
   \<and> (\<exists>w. archiveWriter pkg0 env0 [] [] = Ret (None, w)
        \<and> (\<exists>items. written w = stream pkg0 items \<and> decodeStream pkg0 (stream pkg0 items) = Some items
             \<and> filter (\<lambda>it. \<not> isChecksum it) items = []
             \<and> gaps 0 items = [0] \<and> items \<noteq> [] \<and> isChecksum (last items)))"
proof -
  let ?b = "\<lparr>filePath = ''r/x'', numBytes = 0, buffer = [], blockType = blockTypeEndOfFile,
                       uid = 0, gid = 0, mode = 0\<rparr>"
  have acc: "\<forall>h q. accepts env0 h q" by (simp add: env0_def)
  have wr: "\<forall>b\<in>set (replicate 1000 ?b). writable b" by (simp add: writable_def)
  have short: "\<forall>b\<in>set (replicate 1000 ?b). length (filePath b) < 65536" by simp
  from archiveWriter_accepts [OF acc wr, of pkg0 "[]"]
  obtain w where w: "archiveWriter pkg0 env0 [] (replicate 1000 ?b) = Ret (None, w)" by blast
  from archiveWriter_accepts [OF acc, of "[]" pkg0 "[]"]
  obtain w0 where w0: "archiveWriter pkg0 env0 [] [] = Ret (None, w0)" by auto
  have lg: "logical ?b = EndOfFile ''r/x''" by (simp add: logical_def)
  from checksum_every_1000_blocks_and_at_end [of pkg0 "replicate 1000 ?b" env0 "[]" w]
    inj_typeByte_pkg0 w short
  have A: "\<exists>items. written w = stream pkg0 items \<and> decodeStream pkg0 (stream pkg0 items) = Some items
             \<and> filter (\<lambda>it. \<not> isChecksum it) items = replicate 1000 (EndOfFile ''r/x'')
             \<and> gaps 0 items = [1000, 0] \<and> items \<noteq> [] \<and> isChecksum (last items)"
    by (simp add: lg)
  from checksum_every_1000_blocks_and_at_end [of pkg0 "[]" env0 "[]" w0] inj_typeByte_pkg0 w0
  have B: "\<exists>items. written w0 = stream pkg0 items \<and> decodeStream pkg0 (stream pkg0 items) = Some items
             \<and> filter (\<lambda>it. \<not> isChecksum it) items = []
             \<and> gaps 0 items = [0] \<and> items \<noteq> [] \<and> isChecksum (last items)"
    by simp
  have s: "length (filePath ?b) < 65536" by simp
  from A B w w0 inj_typeByte_pkg0 s show ?thesis by blast
qed

subsection \<open>Whole runs\<close>


lemma Write_error: "Write e q w = (err, w') \<Longrightarrow> err \<noteq> Some ErrAbsoluteDirectoryPath"
  by (auto simp: Write_def split: if_splits)






lemma workers_excluding:
  "map_option (\<lambda>a. (blockQueue a, error a, output' a))
     (workers pkg0 env0 (excluding\<lparr>fileReadQueue := [], blockQueue := [], error := None\<rparr>))
   = Some ([\<lparr>filePath = ''r'', numBytes = 0, buffer = [], blockType = blockTypeDirectory,
              uid = 1000, gid = 1000, mode = 0x800001ED\<rparr>,
            \<lparr>filePath = ''r/d'', numBytes = 0, buffer = [], blockType = blockTypeDirectory,
              uid = 0, gid = 0, mode = 0\<rparr>,
            \<lparr>filePath = ''r/x'', numBytes = 0, buffer = [], blockType = blockTypeStartOfFile,
              uid = 1000, gid = 1000, mode = 0x1A4\<rparr>,
            \<lparr>filePath = ''r/x'', numBytes = 3, buffer = [1, 2, 3, 0], blockType = blockTypeData,
              uid = 0, gid = 0, mode = 0\<rparr>,
            \<lparr>filePath = ''r/x'', numBytes = 0, buffer = [], blockType = blockTypeEndOfFile,
              uid = 0, gid = 0, mode = 0\<rparr>], None, [])"
  by code_simp

lemma Run_stream:
  assumes w: "workers p e (a\<lparr>fileReadQueue := [], blockQueue := [], error := None\<rparr>) = Some a1"
    and acc: "\<forall>h q. accepts e h q" and inj: "inj (typeByte p)"
    and short: "\<forall>b\<in>set (blockQueue a1). length (filePath b) < 65536"
  shows "\<exists>a' items. Run p e a = Some (Ret (error a1, a'))
     \<and> output' a' = output' a1 @ stream p items \<and> decodeStream p (stream p items) = Some items
     \<and> filter (\<lambda>it. \<not> isChecksum it) items = map logical (blockQueue a1)"
proof -
  from w have "runs p e (a\<lparr>fileReadQueue := [], blockQueue := [], error := None\<rparr>) a1"
    by (rule workers_runs)
  from runs_writable [OF this] have wr: "\<forall>b\<in>set (blockQueue a1). writable b" by simp
  from archiveWriter_accepts [OF acc wr, of p "output' a1"]
  obtain w1 where aw: "archiveWriter p e (output' a1) (blockQueue a1) = Ret (None, w1)" by blast
  let ?items = "laid p (fastArchiverHeader p) 0 (blockQueue a1)"
  from archiveWriter_laid(1) [OF aw short]
  have o: "written w1 = output' a1 @ stream p ?items" .
  from wr have nc: "\<forall>b\<in>set (blockQueue a1). blockType b \<noteq> blockTypeChecksum"
    by (simp add: writable_def)
  from wr short have "\<forall>it\<in>set ?items. fits it" by (intro laid_fits) simp
  then have dec: "decodeStream p (stream p ?items) = Some ?items"
    by (rule decodeStream_stream [OF inj])
  have "Run p e a = Some (Ret (error a1, a1\<lparr>blockQueue := [], output' := written w1\<rparr>))"
    using w aw by (simp add: Run_def)
  with o dec laid_blocks [OF nc, of p "fastArchiverHeader p" 0] show ?thesis by auto
qed

text \<open>
  C1.  The scanner consults the private field \<open>excludePatterns\<close>, which nothing ever sets;
  the public field \<open>ExcludePatterns\<close> is never read.  Evaluated: with the pattern \<open>r/x\<close>
  in \<open>ExcludePatterns\<close>, which matches the path \<open>r/x\<close>, the run over the tree \<open>r\<close> still
  writes the StartOfFile, Data and EndOfFile blocks of \<open>r/x\<close> into the stream.
\<close>

theorem public_exclude_patterns_not_applied:
  "ExcludePatterns excluding = [''r/x''] \<and> Match env0 ''r/x'' ''r/x'' = (True, False)
   \<and> (\<exists>a' items. Run pkg0 env0 excluding = Some (Ret (None, a'))
         \<and> decodeStream pkg0 (output' a') = Some items
         \<and> StartOfFile ''r/x'' 1000 1000 0x1A4 \<in> set items
         \<and> Data ''r/x'' [1, 2, 3] \<in> set items \<and> EndOfFile ''r/x'' \<in> set items)"
proof -
  from workers_excluding obtain a1
    where w: "workers pkg0 env0 (excluding\<lparr>fileReadQueue := [], blockQueue := [], error := None\<rparr>) = Some a1"
      and q: "blockQueue a1 =
           [\<lparr>filePath = ''r'', numBytes = 0, buffer = [], blockType = blockTypeDirectory,
              uid = 1000, gid = 1000, mode = 0x800001ED\<rparr>,
            \<lparr>filePath = ''r/d'', numBytes = 0, buffer = [], blockType = blockTypeDirectory,
              uid = 0, gid = 0, mode = 0\<rparr>,
            \<lparr>filePath = ''r/x'', numBytes = 0, buffer = [], blockType = blockTypeStartOfFile,
              uid = 1000, gid = 1000, mode = 0x1A4\<rparr>,
            \<lparr>filePath = ''r/x'', numBytes = 3, buffer = [1, 2, 3, 0], blockType = blockTypeData,
              uid = 0, gid = 0, mode = 0\<rparr>,
            \<lparr>filePath = ''r/x'', numBytes = 0, buffer = [], blockType = blockTypeEndOfFile,
              uid = 0, gid = 0, mode = 0\<rparr>]"
      and er: "error a1 = None" and o: "output' a1 = []"
    by auto
  have acc: "\<forall>h q. accepts env0 h q" by (simp add: env0_def)
  have short: "\<forall>b\<in>set (blockQueue a1). length (filePath b) < 65536" by (simp add: q)
  from Run_stream [OF w acc inj_typeByte_pkg0 short] er o
  obtain a' items where r: "Run pkg0 env0 excluding = Some (Ret (None, a'))"
    and d: "decodeStream pkg0 (output' a') = Some items"
    and f: "filter (\<lambda>it. \<not> isChecksum it) items = map logical (blockQueue a1)"
    by auto
  have "set (map logical (blockQueue a1)) \<subseteq> set items"
    unfolding f [symmetric] by auto
  then have "StartOfFile ''r/x'' 1000 1000 0x1A4 \<in> set items
         \<and> Data ''r/x'' [1, 2, 3] \<in> set items \<and> EndOfFile ''r/x'' \<in> set items"
    by (simp add: q logical_def)
  moreover have "ExcludePatterns excluding = [''r/x''] \<and> Match env0 ''r/x'' ''r/x'' = (True, False)"
    by (simp add: excluding_def AddDir_def env0_def)
  ultimately show ?thesis using r d by blast
qed

subsection \<open>Absolute roots\<close>


















subsection \<open>Groups of blocks by path\<close>






































end
